theory Spec2Isabelle
  imports Complex_Main
begin

section \<open>Strings\<close>

text \<open>
  JavaScript strings are modelled as \<^typ>\<open>string\<close>: sequences of code units below 256
  (Latin-1). On these, \<open>toLowerCase\<close> lowers the letters A to Z and the capital letters
  from U+00C0 to U+00DE (the multiplication sign U+00D7 is no letter), and \<open>is_space\<close> is
  the class that \<open>\s\<close> and \<open>trim\<close> use: tab, line feed, vertical tab, form feed, carriage
  return, space and the no-break space U+00A0.
\<close>

definition lower_char :: "char \<Rightarrow> char" where
  "lower_char c =
     (let n = (of_char c :: nat)
      in if (65 \<le> n \<and> n \<le> 90) \<or> (192 \<le> n \<and> n \<le> 222 \<and> n \<noteq> 215)
         then char_of (n + 32) else c)"

definition toLowerCase :: "string \<Rightarrow> string" where
  "toLowerCase s = map lower_char s"

definition startsWith :: "string \<Rightarrow> string \<Rightarrow> bool" where
  "startsWith p s = (take (length p) s = p)"

definition is_space :: "char \<Rightarrow> bool" where
  "is_space c = (let n = (of_char c :: nat) in n = 32 \<or> (9 \<le> n \<and> n \<le> 13) \<or> n = 160)"

definition trim :: "string \<Rightarrow> string" where
  "trim s = rev (dropWhile is_space (rev (dropWhile is_space s)))"

section \<open>Avatar injector (src/data/js/avatars.js)\<close>

subsection \<open>Configuration\<close>

definition NEGATIVE_TTL :: int where
  "NEGATIVE_TTL = 5 * 60 * 1000"

definition MAX_CONCURRENT :: int where
  "MAX_CONCURRENT = 3"

definition AVATAR_ORIGIN :: string where
  "AVATAR_ORIGIN = ''''"

definition SERVICE_NICKS :: "string list" where
  "SERVICE_NICKS =
     [''chanserv'', ''nickserv'', ''memoserv'', ''operserv'', ''hostserv'',
      ''botserv'', ''saslserv'', ''global'', ''helpserv'', ''statserv'',
      ''alis'', ''gameserv'', ''groupserv'', ''infoserv'', ''reportserv'']"

text \<open>\<open>serviceSet[nick.toLowerCase()] === true\<close>: only the own entries of \<open>serviceSet\<close> are \<open>true\<close>.\<close>

definition isServiceNick :: "string \<Rightarrow> bool" where
  "isServiceNick nick = (toLowerCase nick \<in> set SERVICE_NICKS)"

subsection \<open>Data\<close>

text \<open>A cache entry \<open>{ url, ts }\<close>; \<open>url = None\<close> is JavaScript's \<open>null\<close>.\<close>

record cache_entry =
  url :: "string option"
  ts :: int

text \<open>
  \<open>cache\<close> is a plain object literal, so \<open>cache[key]\<close> also finds what \<open>Object.prototype\<close>
  provides. Such a value is a truthy object or function without \<open>url\<close> and \<open>ts\<close>.
\<close>

definition Object_prototype_keys :: "string list" where
  "Object_prototype_keys =
     [''constructor'', ''__defineGetter__'', ''__defineSetter__'', ''hasOwnProperty'',
      ''__lookupGetter__'', ''__lookupSetter__'', ''isPrototypeOf'', ''propertyIsEnumerable'',
      ''toString'', ''valueOf'', ''__proto__'', ''toLocaleString'']"

datatype cached = Undefined | Entry cache_entry | Inherited

text \<open>The span \<open>.tl-avatar\<close> that \<open>createAvatarEl\<close> builds, with its \<open>img\<close> child.\<close>

record avatar_el =
  data_nick :: string
  img_src :: string
  img_alt :: string
  ctx_class :: "string option"

datatype el_context = Nicklist | Msg | Whois | Other

text \<open>
  What the script reads of a \<open>.user\<close> element of the host page. Elements that can hold
  avatars are named by numbers: \<open>self_node\<close> is the element itself, \<open>closest_from\<close> the
  result of \<open>closest(".from")\<close>, \<open>parentElement\<close> its parent; \<open>closest_msg_type\<close> is the
  \<open>data-type\<close> of \<open>closest(".msg")\<close> (\<open>None\<close> when there is no such ancestor or attribute).
\<close>

record user_el =
  data_name :: "string option"
  self_node :: nat
  closest_userlist :: bool
  closest_from :: "nat option"
  closest_msg_type :: "string option"
  parentElement :: "nat option"

text \<open>A lookup handed to \<open>fetch\<close> whose promise chain has not reached \<open>finally\<close> yet.\<close>

record request =
  req_nick :: string
  req_key :: string
  settled :: bool

text \<open>
  The module state, and the part of the document the script writes: \<open>tl_avatars n\<close> lists
  the \<open>.tl-avatar\<close> descendants of node \<open>n\<close> in document order. The nodes used as
  injection targets are taken to be pairwise disjoint subtrees, as in the host's markup
  (a nicklist entry, the \<open>.from\<close> wrapper of a message, the paragraph of a whois line).
\<close>

record avatars_state =
  cache :: "string \<rightharpoonup> cache_entry"
  queue :: "(string \<times> string) list"
  activeCount :: int
  in_flight :: "request list"
  tl_avatars :: "nat \<Rightarrow> avatar_el list"

definition init_state :: avatars_state where
  "init_state = \<lparr>cache = Map.empty, queue = [], activeCount = 0, in_flight = [],
                  tl_avatars = (\<lambda>_. [])\<rparr>"

definition cache_at :: "avatars_state \<Rightarrow> string \<Rightarrow> cached" where
  "cache_at s key =
     (case cache s key of
        Some e \<Rightarrow> Entry e
      | None \<Rightarrow> if key \<in> set Object_prototype_keys then Inherited else Undefined)"

subsection \<open>Injection\<close>

definition createAvatarEl :: "string \<Rightarrow> string \<Rightarrow> avatar_el" where
  "createAvatarEl nick u =
     \<lparr>data_nick = nick,
      img_src = (if startsWith ''/'' u then AVATAR_ORIGIN @ u else u),
      img_alt = nick,
      ctx_class = None\<rparr>"

definition getContext :: "user_el \<Rightarrow> el_context" where
  "getContext el =
     (if closest_userlist el then Nicklist
      else if closest_from el \<noteq> None then Msg
      else if closest_msg_type el = Some ''whois'' then Whois
      else Other)"

text \<open>The injection target, computed the same way by \<open>injectAvatar\<close> and \<open>processUserElement\<close>.\<close>

definition target_of :: "user_el \<Rightarrow> el_context \<Rightarrow> nat" where
  "target_of el ctx =
     (case ctx of
        Msg \<Rightarrow> (case closest_from el of Some f \<Rightarrow> f | None \<Rightarrow> self_node el)
      | Whois \<Rightarrow> (case parentElement el of Some p \<Rightarrow> p | None \<Rightarrow> self_node el)
      | _ \<Rightarrow> self_node el)"

definition querySelector :: "avatars_state \<Rightarrow> nat \<Rightarrow> avatar_el option" where
  "querySelector s n = (case tl_avatars s n of [] \<Rightarrow> None | a # _ \<Rightarrow> Some a)"

definition removeChild :: "nat \<Rightarrow> avatars_state \<Rightarrow> avatars_state" where
  "removeChild n s = s\<lparr>tl_avatars := (tl_avatars s)(n := tl (tl_avatars s n))\<rparr>"

definition insertBefore :: "nat \<Rightarrow> avatar_el \<Rightarrow> avatars_state \<Rightarrow> avatars_state" where
  "insertBefore n a s = s\<lparr>tl_avatars := (tl_avatars s)(n := a # tl_avatars s n)\<rparr>"

definition injectAvatar :: "user_el \<Rightarrow> string \<Rightarrow> string \<Rightarrow> avatars_state \<Rightarrow> avatars_state" where
  "injectAvatar userEl nick u s =
     (let ctx = getContext userEl in
      if ctx = Other then s
      else
        let target = target_of userEl ctx;
            avatar = (createAvatarEl nick u)
                       \<lparr>ctx_class := (if ctx = Msg then Some ''tl-avatar-msg''
                                      else if ctx = Whois then Some ''tl-avatar-whois''
                                      else None)\<rparr>
        in case querySelector s target of
             Some old \<Rightarrow>
               if data_nick old = nick then s
               else insertBefore target avatar (removeChild target s)
           | None \<Rightarrow> insertBefore target avatar s)"

text \<open>\<open>els\<close> are the \<open>#chat .user\<close> elements of the page at the time of the call.\<close>

definition injectAllForNick ::
  "string \<Rightarrow> string \<Rightarrow> user_el list \<Rightarrow> avatars_state \<Rightarrow> avatars_state" where
  "injectAllForNick nick u els s =
     fold (\<lambda>el. injectAvatar el nick u) (filter (\<lambda>el. data_name el = Some nick) els) s"

subsection \<open>Fetch queue\<close>

definition doFetch :: "string \<Rightarrow> string \<Rightarrow> avatars_state \<Rightarrow> avatars_state" where
  "doFetch nick key s =
     s\<lparr>activeCount := activeCount s + 1,
       in_flight := in_flight s @ [\<lparr>req_nick = nick, req_key = key, settled = False\<rparr>]\<rparr>"

function drainQueue :: "avatars_state \<Rightarrow> avatars_state" where
  "drainQueue s =
     (if activeCount s < MAX_CONCURRENT \<and> queue s \<noteq> []
      then case queue s of
             item # rest \<Rightarrow> drainQueue (doFetch (fst item) (snd item) (s\<lparr>queue := rest\<rparr>))
           | [] \<Rightarrow> s
      else s)"
  by pat_completeness auto
termination
  by (relation "measure (\<lambda>s. length (queue s))") (auto simp: doFetch_def)

declare drainQueue.simps [simp del]

definition enqueue :: "string \<Rightarrow> avatars_state \<Rightarrow> avatars_state" where
  "enqueue nick s =
     (let key = toLowerCase nick in
      if cache_at s key \<noteq> Undefined then s
      else if key \<in> set (map snd (queue s)) then s
      else drainQueue (s\<lparr>queue := queue s @ [(nick, key)]\<rparr>))"

text \<open>
  The outcome of one lookup: \<open>fetch\<close> rejects, the status is not OK, \<open>res.json()\<close> rejects,
  or a body arrives, of which \<open>Body v\<close> keeps \<open>data.avatar_url\<close> (\<open>None\<close> when the body is
  falsy or the field is \<open>null\<close> or absent).
\<close>

datatype response = NetworkError | NotOk | MalformedJSON | Body "string option"

definition then_data :: "string option \<Rightarrow> int \<Rightarrow> string \<Rightarrow> string \<Rightarrow> user_el list
    \<Rightarrow> avatars_state \<Rightarrow> avatars_state" where
  "then_data avatar_url now nick key els s =
     (let u0 = (case avatar_url of Some u \<Rightarrow> if u \<noteq> [] then Some u else None | None \<Rightarrow> None);
          u1 = (case u0 of
                  Some u \<Rightarrow> if startsWith ''/static/'' u then None else Some u
                | None \<Rightarrow> None);
          s1 = s\<lparr>cache := (cache s)(key \<mapsto> \<lparr>url = u1, ts = now\<rparr>)\<rparr>
      in case u1 of Some u \<Rightarrow> injectAllForNick nick u els s1 | None \<Rightarrow> s1)"

definition catch_error :: "int \<Rightarrow> string \<Rightarrow> avatars_state \<Rightarrow> avatars_state" where
  "catch_error now key s = s\<lparr>cache := (cache s)(key \<mapsto> \<lparr>url = None, ts = now\<rparr>)\<rparr>"

text \<open>The \<open>then\<close>/\<open>catch\<close> part of the chain for the \<open>i\<close>-th pending lookup, at time \<open>now\<close>.\<close>

definition settle :: "nat \<Rightarrow> response \<Rightarrow> int \<Rightarrow> user_el list \<Rightarrow> avatars_state \<Rightarrow> avatars_state" where
  "settle i resp now els s =
     (let r = in_flight s ! i;
          s0 = s\<lparr>in_flight := (in_flight s)[i := r\<lparr>settled := True\<rparr>]\<rparr>
      in case resp of
           NetworkError \<Rightarrow> catch_error now (req_key r) s0
         | MalformedJSON \<Rightarrow> catch_error now (req_key r) s0
         | NotOk \<Rightarrow> then_data None now (req_nick r) (req_key r) els s0
         | Body v \<Rightarrow> then_data v now (req_nick r) (req_key r) els s0)"

text \<open>The \<open>finally\<close> part: \<open>activeCount--; drainQueue()\<close>.\<close>

definition finally_step :: "nat \<Rightarrow> avatars_state \<Rightarrow> avatars_state" where
  "finally_step i s =
     drainQueue (s\<lparr>activeCount := activeCount s - 1,
                   in_flight := take i (in_flight s) @ drop (Suc i) (in_flight s)\<rparr>)"

subsection \<open>Scanning\<close>

text \<open>
  \<open>processUserElement\<close> from \<open>if (cached)\<close> to its end; \<open>cached\<close> is the value of
  \<open>cache[key]\<close> read at the top of the function. An inherited value has neither \<open>url\<close>
  nor \<open>ts\<close>: the comparison with \<open>NEGATIVE_TTL\<close> is false and \<open>delete\<close> finds no own
  entry to remove.
\<close>

definition process_cached ::
  "user_el \<Rightarrow> string \<Rightarrow> string \<Rightarrow> cached \<Rightarrow> int \<Rightarrow> avatars_state \<Rightarrow> avatars_state" where
  "process_cached el nick key cached now s =
     (case cached of
        Entry e \<Rightarrow>
          (let negative =
                 (if now - ts e < NEGATIVE_TTL then s
                  else enqueue nick (s\<lparr>cache := (cache s)(key := None)\<rparr>))
           in case url e of
                Some u \<Rightarrow> if u \<noteq> [] then injectAvatar el nick u s else negative
              | None \<Rightarrow> negative)
      | Inherited \<Rightarrow> enqueue nick s
      | Undefined \<Rightarrow> enqueue nick s)"

definition processUserElement :: "user_el \<Rightarrow> int \<Rightarrow> avatars_state \<Rightarrow> avatars_state" where
  "processUserElement el now s =
     (case data_name el of
        None \<Rightarrow> s
      | Some nick \<Rightarrow>
          if nick = [] then s
          else if isServiceNick nick then s
          else
            let ctx = getContext el in
            if ctx = Other then s
            else
              let key = toLowerCase nick;
                  cached = cache_at s key;
                  container = target_of el ctx
              in case querySelector s container of
                   Some existing \<Rightarrow>
                     if data_nick existing = nick then s
                     else process_cached el nick key cached now (removeChild container s)
                 | None \<Rightarrow> process_cached el nick key cached now s)"

text \<open>\<open>els\<close> are the \<open>#chat .user\<close> elements; the selector keeps those with a \<open>data-name\<close>.\<close>

definition scanAll :: "user_el list \<Rightarrow> int \<Rightarrow> avatars_state \<Rightarrow> avatars_state" where
  "scanAll els now s =
     fold (\<lambda>el. processUserElement el now) (filter (\<lambda>el. data_name el \<noteq> None) els) s"

text \<open>\<open>img.onerror\<close>: the first avatar under node \<open>n\<close> removes itself.\<close>

definition onerror :: "nat \<Rightarrow> avatars_state \<Rightarrow> avatars_state" where
  "onerror n s = removeChild n s"

subsection \<open>Executions\<close>

text \<open>
  The script runs one callback at a time: a scan (timer, observer or navigation), the
  \<open>then\<close>/\<open>catch\<close> step of a pending lookup, its \<open>finally\<close> step, or an image error.
  The host decides which elements each callback sees.
\<close>

inductive reachable :: "avatars_state \<Rightarrow> bool" where
  r_init: "reachable init_state"
| r_scan: "reachable s \<Longrightarrow> reachable (scanAll els now s)"
| r_settle: "reachable s \<Longrightarrow> i < length (in_flight s) \<Longrightarrow> \<not> settled (in_flight s ! i)
      \<Longrightarrow> reachable (settle i resp now els s)"
| r_finally: "reachable s \<Longrightarrow> i < length (in_flight s) \<Longrightarrow> settled (in_flight s ! i)
      \<Longrightarrow> reachable (finally_step i s)"
| r_onerror: "reachable s \<Longrightarrow> reachable (onerror n s)"

subsection \<open>Auxiliary notions\<close>

text \<open>The request that \<open>doFetch\<close> starts for a queue item.\<close>

definition mk_request :: "string \<times> string \<Rightarrow> request" where
  "mk_request item = \<lparr>req_nick = fst item, req_key = snd item, settled = False\<rparr>"

definition count_inv :: "avatars_state \<Rightarrow> bool" where
  "count_inv s \<longleftrightarrow> activeCount s = int (length (in_flight s)) \<and> activeCount s \<le> MAX_CONCURRENT"

subsection \<open>Sample inputs\<close>

definition alice_el :: user_el where
  "alice_el = \<lparr>data_name = Some ''Alice'', self_node = 1, closest_userlist = True,
     closest_from = None, closest_msg_type = None, parentElement = Some 0\<rparr>"

definition one_lookup :: avatars_state where
  "one_lookup = scanAll [alice_el] 1000 init_state"

subsection \<open>Invariants of the executions\<close>

text \<open>No queued item, pending lookup or avatar in the document carries a service nickname.\<close>

definition nonservice_inv :: "avatars_state \<Rightarrow> bool" where
  "nonservice_inv s \<longleftrightarrow>
     (\<forall>item \<in> set (queue s). \<not> isServiceNick (fst item)) \<and>
     (\<forall>r \<in> set (in_flight s). \<not> isServiceNick (req_nick r)) \<and>
     (\<forall>n. \<forall>a \<in> set (tl_avatars s n). \<not> isServiceNick (data_nick a))"

text \<open>The element \<open>injectAvatar\<close> inserts for \<open>el\<close>: \<open>createAvatarEl\<close> plus the context class.\<close>

definition new_avatar :: "user_el \<Rightarrow> string \<Rightarrow> string \<Rightarrow> avatar_el" where
  "new_avatar el nick u =
     (createAvatarEl nick u)
        \<lparr>ctx_class := (if getContext el = Msg then Some ''tl-avatar-msg''
                       else if getContext el = Whois then Some ''tl-avatar-whois''
                       else None)\<rparr>"

text \<open>The first avatar under node \<open>n\<close> records \<open>nick\<close> (\<open>"already correct"\<close> in the source).\<close>

definition shows_nick :: "avatars_state \<Rightarrow> nat \<Rightarrow> string \<Rightarrow> bool" where
  "shows_nick s n nick = (case querySelector s n of Some a \<Rightarrow> data_nick a = nick | None \<Rightarrow> False)"

text \<open>Every node holds at most one avatar.\<close>

definition single_inv :: "avatars_state \<Rightarrow> bool" where
  "single_inv s \<longleftrightarrow> (\<forall>n. length (tl_avatars s n) \<le> 1)"

text \<open>The queue holds each key once, and each key is its nickname in lower case.\<close>

definition queue_inv :: "avatars_state \<Rightarrow> bool" where
  "queue_inv s \<longleftrightarrow>
     distinct (map snd (queue s)) \<and> (\<forall>item \<in> set (queue s). snd item = toLowerCase (fst item))"

text \<open>
  The outcomes after which an avatar is shown: a body whose \<open>avatar_url\<close> is a non-empty
  string that does not start with \<open>/static/\<close>.
\<close>

definition usable_avatar_url :: "response \<Rightarrow> string option" where
  "usable_avatar_url resp =
     (case resp of
        Body (Some u) \<Rightarrow> if u \<noteq> [] \<and> \<not> startsWith ''/static/'' u then Some u else None
      | _ \<Rightarrow> None)"

subsection \<open>More sample inputs\<close>

text \<open>A nicklist entry, and the name inside the \<open>.from\<close> wrapper of a chat message.\<close>

definition nicklist_el :: "string \<Rightarrow> nat \<Rightarrow> user_el" where
  "nicklist_el nick n = \<lparr>data_name = Some nick, self_node = n, closest_userlist = True,
     closest_from = None, closest_msg_type = None, parentElement = Some 0\<rparr>"

definition msg_el :: "string \<Rightarrow> nat \<Rightarrow> nat \<Rightarrow> user_el" where
  "msg_el nick n wrapper = \<lparr>data_name = Some nick, self_node = n, closest_userlist = False,
     closest_from = Some wrapper, closest_msg_type = Some ''message'', parentElement = Some wrapper\<rparr>"

text \<open>
  Three lookups fill the slots; a second scan, while they are pending, queues \<open>dave\<close> and
  \<open>alice\<close> again; then the first lookup for \<open>alice\<close> completes with an avatar.
\<close>

definition three_in_flight :: avatars_state where
  "three_in_flight =
     scanAll [nicklist_el ''alice'' 1, nicklist_el ''bob'' 2, nicklist_el ''carol'' 3] 0 init_state"

definition alice_requeued :: avatars_state where
  "alice_requeued = scanAll [nicklist_el ''dave'' 4, nicklist_el ''alice'' 1] 100 three_in_flight"

definition alice_settled :: avatars_state where
  "alice_settled =
     settle 0 (Body (Some ''/media/avatars/a.png'')) 200 [nicklist_el ''alice'' 1] alice_requeued"

definition alice_cached_and_queued :: avatars_state where
  "alice_cached_and_queued = finally_step 0 alice_settled"

text \<open>
  Then the lookup for \<open>bob\<close> completes, which frees a slot for the queued \<open>alice\<close>.
\<close>

definition alice_refetched :: avatars_state where
  "alice_refetched = finally_step 0 (settle 0 NotOk 300 [] alice_cached_and_queued)"

text \<open>A service account in the nicklist, and a cache that holds an avatar for it.\<close>

definition chanserv_el :: user_el where
  "chanserv_el = \<lparr>data_name = Some ''ChanServ'', self_node = 7, closest_userlist = True,
     closest_from = None, closest_msg_type = None, parentElement = Some 0\<rparr>"

definition chanserv_cached :: avatars_state where
  "chanserv_cached =
     init_state\<lparr>cache := [''chanserv'' \<mapsto> \<lparr>url = Some ''/media/avatars/c.png'', ts = 0\<rparr>]\<rparr>"

text \<open>The lookup for \<open>bob\<close> answered \<open>null\<close> at time 0.\<close>

definition bob_negative :: avatars_state where
  "bob_negative =
     finally_step 0 (settle 0 (Body None) 0 [nicklist_el ''bob'' 2]
       (scanAll [nicklist_el ''bob'' 2] 0 init_state))"

text \<open>The lookup for \<open>Alice\<close> answered with an avatar, injected into her nicklist entry.\<close>

definition alice_shown :: avatars_state where
  "alice_shown = settle 0 (Body (Some ''/media/avatars/a.png'')) 2000 [alice_el] one_lookup"

section \<open>Colour settings (src/unnamed/part_000)\<close>

subsection \<open>Values\<close>

text \<open>
  A JSON value as \<open>JSON.parse\<close> returns it. An object keeps its entries in order; where
  a key occurs twice the later entry counts. Numbers are only ever tested for being zero.
\<close>

datatype json =
    JNull
  | JBool bool
  | JNum real
  | JStr string
  | JArr "json list"
  | JObj "(string \<times> json) list"

text \<open>The settings object: its own properties.\<close>

type_synonym settings = "string \<rightharpoonup> json"

datatype error = SyntaxError | SecurityError

definition STORAGE_KEY :: string where
  "STORAGE_KEY = ''irc4fun-color-settings''"

definition SYNC_TAG :: string where
  "SYNC_TAG = ''IRC4FUN_COLORS''"

definition DEFAULTS_entries :: "(string \<times> json) list" where
  "DEFAULTS_entries =
     [(''coloredNicks'', JBool True),
      (''nickBold'', JBool False),
      (''timestampColor'', JStr ''#64748b''),
      (''linkColor'', JStr ''#5aa5ff''),
      (''joinColor'', JStr ''#4ade80''),
      (''partColor'', JStr ''#f87171''),
      (''quitColor'', JStr ''#f87171''),
      (''actionColor'', JStr ''#fbbf24''),
      (''noticeColor'', JStr ''#5aa5ff''),
      (''highlightBg'', JStr ''#1c2d4a''),
      (''highlightBorder'', JStr ''#0076f9''),
      (''unreadMarker'', JStr ''#ef4444''),
      (''dateMarker'', JStr ''#14b8a6''),
      (''bgColor'', JStr ''#0f1115''),
      (''windowBg'', JStr ''#1a1e25''),
      (''sidebarBg'', JStr ''#0c0e12''),
      (''textColor'', JStr ''#e4e7eb''),
      (''mutedColor'', JStr ''#8a94a8''),
      (''inputBg'', JStr ''#11141a''),
      (''borderColor'', JStr ''#2a3545''),
      (''accentColor'', JStr ''#0076f9'')]"

definition DEFAULTS :: settings where
  "DEFAULTS = map_of DEFAULTS_entries"

text \<open>JavaScript truthiness, as \<open>if (raw)\<close> and \<open>if (fromServer)\<close> test it.\<close>

fun truthy :: "json \<Rightarrow> bool" where
  "truthy JNull = False"
| "truthy (JBool b) = b"
| "truthy (JNum r) = (r \<noteq> 0)"
| "truthy (JStr s) = (s \<noteq> [])"
| "truthy (JArr xs) = True"
| "truthy (JObj kvs) = True"

fun decimal :: "nat \<Rightarrow> string" where
  "decimal n =
     (if n < 10 then [char_of (48 + n)] else decimal (n div 10) @ [char_of (48 + n mod 10)])"

declare decimal.simps [simp del]

text \<open>
  The own enumerable properties that \<open>Object.assign\<close> copies from a source: the entries of
  an object, the indexed elements of an array, the indexed characters of a string, and
  nothing of \<open>null\<close>, a boolean or a number.
\<close>

fun own_props :: "json \<Rightarrow> (string \<times> json) list" where
  "own_props (JObj kvs) = kvs"
| "own_props (JArr xs) = map (\<lambda>i. (decimal i, xs ! i)) [0..<length xs]"
| "own_props (JStr s) = map (\<lambda>i. (decimal i, JStr [s ! i])) [0..<length s]"
| "own_props v = []"

text \<open>
  \<open>Object.assign({}, target, src)\<close>. Assigning to \<open>__proto__\<close> runs the setter of
  \<open>Object.prototype\<close>, which creates no own property.
\<close>

definition Object_assign :: "settings \<Rightarrow> json \<Rightarrow> settings" where
  "Object_assign target src =
     fold (\<lambda>(k, v) m. if k = ''__proto__'' then m else m(k \<mapsto> v)) (own_props src) target"

subsection \<open>The tagged comment block\<close>

text \<open>
  Both regular expressions begin with \<open>/\*\s*IRC4FUN_COLORS:\<close> and then take the shortest
  text up to a \<open>*/\<close>. At a given position they match when \<open>/*\<close>, any white space and the
  tag with its colon are there and a \<open>*/\<close> comes later; the text between the colon and the
  first such \<open>*/\<close> is the body. \<open>String.match\<close> and \<open>String.replace\<close> take the leftmost
  position where that holds.
\<close>

fun strip_prefix :: "string \<Rightarrow> string \<Rightarrow> string option" where
  "strip_prefix [] s = Some s"
| "strip_prefix (p # ps) [] = None"
| "strip_prefix (p # ps) (c # cs) = (if p = c then strip_prefix ps cs else None)"

text \<open>The text before and after the first \<open>*/\<close>.\<close>

fun split_close :: "string \<Rightarrow> (string \<times> string) option" where
  "split_close [] = None"
| "split_close [c] = None"
| "split_close (c # d # cs) =
     (if c = CHR ''*'' \<and> d = CHR ''/'' then Some ([], cs)
      else map_option (\<lambda>(b, r). (c # b, r)) (split_close (d # cs)))"

text \<open>A block at the start of \<open>s\<close>: its body and the text after its \<open>*/\<close>.\<close>

definition match_block :: "string \<Rightarrow> (string \<times> string) option" where
  "match_block s =
     (case strip_prefix ''/*'' s of
        None \<Rightarrow> None
      | Some s1 \<Rightarrow>
          (case strip_prefix (SYNC_TAG @ '':'') (dropWhile is_space s1) of
             None \<Rightarrow> None
           | Some s2 \<Rightarrow> split_close s2))"

text \<open>The leftmost block of \<open>s\<close>: the text before it, its body and the text after it.\<close>

fun find_block :: "string \<Rightarrow> (string \<times> string \<times> string) option" where
  "find_block [] = None"
| "find_block (c # cs) =
     (case match_block (c # cs) of
        Some (b, r) \<Rightarrow> Some ([], b, r)
      | None \<Rightarrow> map_option (\<lambda>(p, b, r). (c # p, b, r)) (find_block cs))"

text \<open>
  \<open>parseTagFromCSS\<close>: the capture group is the body without the white space at its ends;
  \<open>null\<close> is \<open>JNull\<close>. \<open>JSON.parse\<close> is the platform's, \<open>Inl\<close> when it throws.
\<close>

definition parseTagFromCSS :: "(string \<Rightarrow> error + json) \<Rightarrow> string \<Rightarrow> json" where
  "parseTagFromCSS JSON_parse css =
     (case find_block css of
        None \<Rightarrow> JNull
      | Some (p, b, r) \<Rightarrow> (case JSON_parse (trim b) of Inl e \<Rightarrow> JNull | Inr v \<Rightarrow> v))"

text \<open>\<open>userStyles\<close> is the \<open>innerHTML\<close> of \<open>#user-specified-css\<close>, \<open>None\<close> without that element.\<close>

definition loadFromUserStyles :: "(string \<Rightarrow> error + json) \<Rightarrow> string option \<Rightarrow> json" where
  "loadFromUserStyles JSON_parse userStyles =
     (case userStyles of None \<Rightarrow> JNull | Some html \<Rightarrow> parseTagFromCSS JSON_parse html)"

text \<open>\<open>existingCSS.replace(re, "")\<close>: the leftmost block goes, with the white space after it.\<close>

definition strip_old_tag :: "string \<Rightarrow> string" where
  "strip_old_tag css =
     (case find_block css of None \<Rightarrow> css | Some (p, b, r) \<Rightarrow> p @ dropWhile is_space r)"

definition buildSyncCSS :: "(settings \<Rightarrow> string) \<Rightarrow> settings \<Rightarrow> string \<Rightarrow> string" where
  "buildSyncCSS JSON_stringify settings existingCSS =
     (let clean = trim (strip_old_tag existingCSS);
          tag = ''/* '' @ SYNC_TAG @ '': '' @ JSON_stringify settings @ '' */''
      in if clean \<noteq> [] then tag @ [CHR 0x0A] @ clean else tag)"

text \<open>The number of blocks in a text, counted from left to right without overlap.\<close>

function count_blocks :: "string \<Rightarrow> nat" where
  "count_blocks s = (case find_block s of None \<Rightarrow> 0 | Some (p, b, r) \<Rightarrow> Suc (count_blocks r))"
  by pat_completeness auto
termination
proof (relation "measure length")
  show "wf (measure length)" by simp
next
  fix s :: string and x p y b r
  assume a: "find_block s = Some x" "(p, y) = x" "(b, r) = y"
  have sc: "split_close t = Some (b', r') \<Longrightarrow> length r' < length t" for t b' r'
    by (induction t arbitrary: b' r' rule: split_close.induct) (auto split: if_splits)
  have sp: "strip_prefix q t = Some t' \<Longrightarrow> length t' \<le> length t" for q t t'
    by (induction q t rule: strip_prefix.induct) (auto split: if_splits)
  have mb: "match_block t = Some (b', r') \<Longrightarrow> length r' < length t" for t b' r'
    unfolding match_block_def
    by (auto split: option.splits dest!: sc sp
             intro: less_le_trans le_trans[OF _ length_dropWhile_le])
  have fb: "find_block t = Some (p', b', r') \<Longrightarrow> length r' < length t" for t p' b' r'
    by (induction t arbitrary: p') (auto split: option.splits dest!: mb)
  show "(r, s) \<in> measure length" using a fb[of s p b r] by auto
qed

declare count_blocks.simps [simp del]

subsection \<open>Loading and saving\<close>

text \<open>
  The body of the \<open>try\<close> in \<open>load\<close>. \<open>stored\<close> is what \<open>localStorage.getItem(STORAGE_KEY)\<close>
  does: it throws, or returns the stored text or \<open>null\<close>.
\<close>

definition load_try ::
  "(string \<Rightarrow> error + json) \<Rightarrow> error + string option \<Rightarrow> string option \<Rightarrow> error + settings" where
  "load_try JSON_parse stored userStyles =
     (case stored of
        Inl e \<Rightarrow> Inl e
      | Inr raw \<Rightarrow>
          (let restore =
                 (let fromServer = loadFromUserStyles JSON_parse userStyles
                  in if truthy fromServer then Inr (Object_assign DEFAULTS fromServer)
                     else Inr DEFAULTS)
           in case raw of
                None \<Rightarrow> restore
              | Some text \<Rightarrow>
                  if text \<noteq> []
                  then case JSON_parse text of
                         Inl e \<Rightarrow> Inl e
                       | Inr saved \<Rightarrow> Inr (Object_assign DEFAULTS saved)
                  else restore))"

definition load ::
  "(string \<Rightarrow> error + json) \<Rightarrow> error + string option \<Rightarrow> string option \<Rightarrow> error + settings" where
  "load JSON_parse stored userStyles =
     (case load_try JSON_parse stored userStyles of
        Inl e \<Rightarrow> Inr DEFAULTS
      | Inr m \<Rightarrow> Inr m)"

text \<open>\<open>save\<close>: the text that \<open>localStorage\<close> holds under \<open>STORAGE_KEY\<close> afterwards.\<close>

definition save :: "(settings \<Rightarrow> string) \<Rightarrow> settings \<Rightarrow> string option" where
  "save JSON_stringify m = Some (JSON_stringify m)"

subsection \<open>The panel\<close>

text \<open>
  The state the handlers work on: the \<open>settings\<close> variable, the stored text, the mapping
  that \<open>applyAll\<close> rendered last (the style properties and the override block are a function
  of it), and the values of the two inputs of each colour row, kept as the JavaScript
  values assigned to them.
\<close>

record panel =
  settings :: settings
  localStorage :: "string option"
  applied :: settings
  swatch_value :: "string \<rightharpoonup> json"
  hex_value :: "string \<rightharpoonup> json"

definition applyAll :: "panel \<Rightarrow> panel" where
  "applyAll st = st\<lparr>applied := settings st\<rparr>"

text \<open>\<open>/^#[0-9a-fA-F]{6}$/\<close>\<close>

definition is_hex_digit :: "char \<Rightarrow> bool" where
  "is_hex_digit c =
     (let n = (of_char c :: nat)
      in (48 \<le> n \<and> n \<le> 57) \<or> (97 \<le> n \<and> n \<le> 102) \<or> (65 \<le> n \<and> n \<le> 70))"

definition is_hex_color :: "string \<Rightarrow> bool" where
  "is_hex_color v =
     (case v of
        [] \<Rightarrow> False
      | c # ds \<Rightarrow> c = CHR ''#'' \<and> length ds = 6 \<and> list_all is_hex_digit ds)"

text \<open>The \<open>change\<close> listener of the hex input of \<open>key\<close>, when the input holds \<open>raw\<close>.\<close>

definition hex_change :: "(settings \<Rightarrow> string) \<Rightarrow> string \<Rightarrow> string \<Rightarrow> panel \<Rightarrow> panel" where
  "hex_change JSON_stringify key raw st =
     (let v = trim raw in
      if is_hex_color v
      then
        let st1 = st\<lparr>settings := (settings st)(key \<mapsto> JStr v),
                     swatch_value := (swatch_value st)(key \<mapsto> JStr v),
                     hex_value := (hex_value st)(key \<mapsto> JStr raw)\<rparr>;
            st2 = st1\<lparr>localStorage := save JSON_stringify (settings st1)\<rparr>
        in applyAll st2
      else st\<lparr>hex_value := (hex_value st)(key := settings st key)\<rparr>)"

text \<open>\<open>hex.maxLength = 7\<close>: what a user can enter.\<close>

definition hex_maxLength :: nat where
  "hex_maxLength = 7"

text \<open>
  The colour rows of \<open>SETTING_GROUPS\<close>; \<open>buildUI\<close> sets both inputs of each row to
  \<open>settings[key]\<close>.
\<close>

definition color_keys :: "string list" where
  "color_keys =
     [''timestampColor'', ''linkColor'', ''joinColor'', ''partColor'', ''quitColor'',
      ''actionColor'', ''noticeColor'', ''highlightBg'', ''highlightBorder'', ''unreadMarker'',
      ''dateMarker'', ''bgColor'', ''windowBg'', ''sidebarBg'', ''inputBg'', ''textColor'',
      ''mutedColor'', ''borderColor'', ''accentColor'']"

definition buildUI :: "panel \<Rightarrow> panel" where
  "buildUI st =
     st\<lparr>swatch_value := (\<lambda>k. if k \<in> set color_keys then settings st k else None),
        hex_value := (\<lambda>k. if k \<in> set color_keys then settings st k else None)\<rparr>"

text \<open>The click listener of "Reset to Defaults".\<close>

definition reset_click :: "(settings \<Rightarrow> string) \<Rightarrow> panel \<Rightarrow> panel" where
  "reset_click JSON_stringify st =
     (let st1 = st\<lparr>settings := DEFAULTS\<rparr>;
          st2 = st1\<lparr>localStorage := save JSON_stringify (settings st1)\<rparr>
      in buildUI (applyAll st2))"

subsection \<open>Auxiliary notions\<close>

text \<open>
  What the properties below ask of the platform's \<open>JSON.stringify\<close> and \<open>JSON.parse\<close> at a
  mapping \<open>m\<close>: the text is not empty, and parsing it gives an object whose own properties
  are those of \<open>m\<close>.
\<close>

definition json_roundtrip ::
  "(string \<Rightarrow> error + json) \<Rightarrow> (settings \<Rightarrow> string) \<Rightarrow> settings \<Rightarrow> bool" where
  "json_roundtrip JSON_parse JSON_stringify m \<longleftrightarrow>
     JSON_stringify m \<noteq> [] \<and>
     (case JSON_parse (JSON_stringify m) of
        Inl e \<Rightarrow> False
      | Inr v \<Rightarrow> Object_assign Map.empty v = m)"

text \<open>One step of \<open>Object.assign\<close>.\<close>

definition assign_entry :: "string \<times> json \<Rightarrow> settings \<Rightarrow> settings" where
  "assign_entry = (\<lambda>(k, v) m. if k = ''__proto__'' then m else m(k \<mapsto> v))"

text \<open>
  A JSON text that can sit in a comment: it holds no \<open>*/\<close> and has no white space at its
  ends. The texts of mappings from the setting names to booleans and hex colours are so.
\<close>

definition comment_safe :: "string \<Rightarrow> bool" where
  "comment_safe t \<longleftrightarrow> split_close t = None \<and> trim t = t"

text \<open>The comment \<open>buildSyncCSS\<close> writes around a JSON text.\<close>

definition sync_tag :: "string \<Rightarrow> string" where
  "sync_tag t = ''/* '' @ SYNC_TAG @ '': '' @ t @ '' */''"

text \<open>
  The own properties that \<open>Object.assign\<close> takes from a value, as a mapping: the last
  entry of each key other than \<open>__proto__\<close>.
\<close>

definition own_values :: "json \<Rightarrow> settings" where
  "own_values v = map_of (rev (filter (\<lambda>(k, x). k \<noteq> ''__proto__'') (own_props v)))"

text \<open>
  Following the claim on the loader, the data recovered for a session: the own properties
  of what the stored text parses to; without stored text, those of the truthy value the
  first tagged block of the synced style element parses to; nothing when the storage
  throws, when the text in question does not parse, or when there is neither.
\<close>

definition recovered_settings ::
  "(string \<Rightarrow> error + json) \<Rightarrow> error + string option \<Rightarrow> string option \<Rightarrow> settings" where
  "recovered_settings JSON_parse stored userStyles =
     (let from_styles =
            (case userStyles of
               None \<Rightarrow> Map.empty
             | Some css \<Rightarrow>
                 (case find_block css of
                    None \<Rightarrow> Map.empty
                  | Some (p, b, r) \<Rightarrow>
                      (case JSON_parse (trim b) of
                         Inl e \<Rightarrow> Map.empty
                       | Inr v \<Rightarrow> if truthy v then own_values v else Map.empty)))
      in case stored of
           Inl e \<Rightarrow> Map.empty
         | Inr None \<Rightarrow> from_styles
         | Inr (Some text) \<Rightarrow>
             if text = [] then from_styles
             else (case JSON_parse text of Inl e \<Rightarrow> Map.empty | Inr saved \<Rightarrow> own_values saved))"

text \<open>
  The recovered data with the defaults filling every key it lacks.
\<close>

definition defaults_filling :: "settings \<Rightarrow> settings" where
  "defaults_filling r = (\<lambda>k. case r k of Some v \<Rightarrow> Some v | None \<Rightarrow> DEFAULTS k)"

subsection \<open>Sample inputs\<close>

text \<open>
  The text \<open>JSON.stringify\<close> gives for an object whose values are booleans and strings
  without characters to escape, and with it the platform functions at two mappings: the
  defaults, and the defaults with bold nicknames.
\<close>

definition quote :: "string \<Rightarrow> string" where
  "quote s = [CHR 0x22] @ s @ [CHR 0x22]"

fun join_commas :: "string list \<Rightarrow> string" where
  "join_commas [] = []"
| "join_commas [x] = x"
| "join_commas (x # y # ys) = x @ '','' @ join_commas (y # ys)"

fun value_text :: "json \<Rightarrow> string" where
  "value_text (JBool b) = (if b then ''true'' else ''false'')"
| "value_text (JStr s) = quote s"
| "value_text v = ''null''"

definition flat_json :: "(string \<times> json) list \<Rightarrow> string" where
  "flat_json kvs = ''{'' @ join_commas (map (\<lambda>(k, v). quote k @ '':'' @ value_text v) kvs) @ ''}''"

definition sample_stringify :: "settings \<Rightarrow> string" where
  "sample_stringify m =
     flat_json (concat (map (\<lambda>k. case m k of Some v \<Rightarrow> [(k, v)] | None \<Rightarrow> [])
                            (map fst DEFAULTS_entries)))"

definition bold_entries :: "(string \<times> json) list" where
  "bold_entries =
     map (\<lambda>(k, v). if k = ''nickBold'' then (k, JBool True) else (k, v)) DEFAULTS_entries"

definition bold_settings :: settings where
  "bold_settings = map_of bold_entries"

definition sample_parse :: "string \<Rightarrow> error + json" where
  "sample_parse t =
     (if t = sample_stringify DEFAULTS then Inr (JObj DEFAULTS_entries)
      else if t = sample_stringify bold_settings then Inr (JObj bold_entries)
      else Inl SyntaxError)"

text \<open>Custom CSS without a block, and custom CSS into which two blocks were pasted.\<close>

definition plain_css :: string where
  "plain_css = ''#chat .msg { font-size: 14px; }''"

definition two_blocks :: string where
  "two_blocks = sync_tag (sample_stringify DEFAULTS) @ [CHR 0x0A] @
                sync_tag (sample_stringify bold_settings)"

text \<open>The panel as \<open>buildUI\<close> shows it for the defaults.\<close>

definition sample_panel :: panel where
  "sample_panel =
     buildUI \<lparr>settings = DEFAULTS, localStorage = None, applied = DEFAULTS,
              swatch_value = Map.empty, hex_value = Map.empty\<rparr>"

text \<open>
  A partial mapping as JSON text, and a \<open>JSON.parse\<close> that knows this text only.
\<close>

definition bold_only :: string where
  "bold_only = flat_json [(''nickBold'', JBool True)]"

definition partial_parse :: "string \<Rightarrow> error + json" where
  "partial_parse t =
     (if t = bold_only then Inr (JObj [(''nickBold'', JBool True)]) else Inl SyntaxError)"

section \<open>Properties of the avatar injector\<close>

subsection \<open>The concurrency bound\<close>

lemma drainQueue_eq:
  "activeCount s \<le> MAX_CONCURRENT \<Longrightarrow>
   drainQueue s =
     (let k = min (length (queue s)) (nat (MAX_CONCURRENT - activeCount s))
      in s\<lparr>queue := drop k (queue s),
           activeCount := activeCount s + int k,
           in_flight := in_flight s @ map mk_request (take k (queue s))\<rparr>)"
proof (induction s rule: drainQueue.induct)
  case (1 s)
  show ?case
  proof (cases "activeCount s < MAX_CONCURRENT \<and> queue s \<noteq> []")
    case False
    then have "min (length (queue s)) (nat (MAX_CONCURRENT - activeCount s)) = 0"
      using "1.prems" by auto
    then show ?thesis using False by (subst drainQueue.simps) simp
  next
    case True
    then obtain item rest where q: "queue s = item # rest" by (cases "queue s") auto
    let ?s1 = "doFetch (fst item) (snd item) (s\<lparr>queue := rest\<rparr>)"
    have le: "activeCount ?s1 \<le> MAX_CONCURRENT" using True by (simp add: doFetch_def)
    have ih: "drainQueue ?s1 =
     (let k = min (length (queue ?s1)) (nat (MAX_CONCURRENT - activeCount ?s1))
      in ?s1\<lparr>queue := drop k (queue ?s1),
           activeCount := activeCount ?s1 + int k,
           in_flight := in_flight ?s1 @ map mk_request (take k (queue ?s1))\<rparr>)"
      using "1.IH"[OF True q le] .
    have k: "min (length (queue s)) (nat (MAX_CONCURRENT - activeCount s))
           = Suc (min (length rest) (nat (MAX_CONCURRENT - (activeCount s + 1))))"
      using True q by (auto simp: min_def)
    have "drainQueue s = drainQueue ?s1"
      using True q by (subst drainQueue.simps) simp
    also note ih
    finally show ?thesis
      unfolding k by (simp add: doFetch_def q Let_def mk_request_def)
  qed
qed

lemma drainQueue_cache [simp]: "cache (drainQueue s) = cache s"
  by (induction s rule: drainQueue.induct)
     (subst drainQueue.simps, auto simp: doFetch_def split: list.splits)

lemma drainQueue_avatars [simp]: "tl_avatars (drainQueue s) = tl_avatars s"
  by (induction s rule: drainQueue.induct)
     (subst drainQueue.simps, auto simp: doFetch_def split: list.splits)

lemma drainQueue_count_inv: "count_inv s \<Longrightarrow> count_inv (drainQueue s)"
  unfolding count_inv_def
  by (auto simp: drainQueue_eq Let_def min_def)

lemma injectAvatar_frame [simp]:
  "cache (injectAvatar el nick u s) = cache s"
  "queue (injectAvatar el nick u s) = queue s"
  "activeCount (injectAvatar el nick u s) = activeCount s"
  "in_flight (injectAvatar el nick u s) = in_flight s"
  by (auto simp: injectAvatar_def Let_def insertBefore_def removeChild_def split: option.splits)

lemma removeChild_frame [simp]:
  "cache (removeChild n s) = cache s"
  "queue (removeChild n s) = queue s"
  "activeCount (removeChild n s) = activeCount s"
  "in_flight (removeChild n s) = in_flight s"
  by (auto simp: removeChild_def)

lemma injectAllForNick_frame [simp]:
  "cache (injectAllForNick nick u els s) = cache s"
  "queue (injectAllForNick nick u els s) = queue s"
  "activeCount (injectAllForNick nick u els s) = activeCount s"
  "in_flight (injectAllForNick nick u els s) = in_flight s"
  unfolding injectAllForNick_def
  by (induction els arbitrary: s; simp)+

lemma process_cached_cases:
  assumes P: "P s"
    and inj: "\<And>s u. P s \<Longrightarrow> P (injectAvatar el nick u s)"
    and del: "\<And>s. P s \<Longrightarrow> P (s\<lparr>cache := (cache s)(key := None)\<rparr>)"
    and enq: "\<And>s. P s \<Longrightarrow> P (enqueue nick s)"
  shows "P (process_cached el nick key cached now s)"
  unfolding process_cached_def Let_def
  using P inj enq del by (simp split: cached.split option.split)

lemma processUserElement_cases:
  assumes P: "P s"
    and rem: "\<And>s n. P s \<Longrightarrow> P (removeChild n s)"
    and inj: "\<And>s nick u. P s \<Longrightarrow> data_name el = Some nick \<Longrightarrow> \<not> isServiceNick nick
                \<Longrightarrow> P (injectAvatar el nick u s)"
    and del: "\<And>s key. P s \<Longrightarrow> P (s\<lparr>cache := (cache s)(key := None)\<rparr>)"
    and enq: "\<And>s nick. P s \<Longrightarrow> data_name el = Some nick \<Longrightarrow> \<not> isServiceNick nick
                \<Longrightarrow> P (enqueue nick s)"
  shows "P (processUserElement el now s)"
proof (cases "data_name el")
  case None
  then show ?thesis using P by (simp add: processUserElement_def)
next
  case (Some nick)
  show ?thesis
  proof (cases "nick = [] \<or> isServiceNick nick \<or> getContext el = Other")
    case True
    then show ?thesis using P Some by (auto simp: processUserElement_def)
  next
    case False
    have ns: "\<not> isServiceNick nick" using False by simp
    have L: "P (process_cached el nick key cached now s1)" if "P s1" for s1 key cached
      using that inj[OF _ Some ns] del enq[OF _ Some ns]
      by (rule process_cached_cases)
    show ?thesis
      using False Some P L rem
      by (simp add: processUserElement_def Let_def split: option.split)
  qed
qed

lemma enqueue_count_inv: "count_inv s \<Longrightarrow> count_inv (enqueue nick s)"
  unfolding enqueue_def Let_def
  by (auto intro!: drainQueue_count_inv) (auto simp: count_inv_def)

lemma processUserElement_count_inv:
  "count_inv s \<Longrightarrow> count_inv (processUserElement el now s)"
  by (rule processUserElement_cases[where P = count_inv])
     (simp_all add: enqueue_count_inv, simp_all add: count_inv_def)

lemma scanAll_count_inv: "count_inv s \<Longrightarrow> count_inv (scanAll els now s)"
  unfolding scanAll_def
  by (induction els arbitrary: s) (auto intro: processUserElement_count_inv)

lemma settle_frame [simp]:
  "queue (settle i resp now els s) = queue s"
  "activeCount (settle i resp now els s) = activeCount s"
  "in_flight (settle i resp now els s) = (in_flight s)[i := (in_flight s ! i)\<lparr>settled := True\<rparr>]"
  by (auto simp: settle_def Let_def then_data_def catch_error_def split: response.splits option.splits)

lemma settle_count_inv: "count_inv s \<Longrightarrow> count_inv (settle i resp now els s)"
  by (simp add: count_inv_def)

lemma finally_step_count_inv:
  "count_inv s \<Longrightarrow> i < length (in_flight s) \<Longrightarrow> count_inv (finally_step i s)"
  unfolding finally_step_def
  by (rule drainQueue_count_inv) (auto simp: count_inv_def)

lemma reachable_count_inv: "reachable s \<Longrightarrow> count_inv s"
proof (induction rule: reachable.induct)
  case r_init
  show ?case by (simp add: count_inv_def init_state_def MAX_CONCURRENT_def)
next
  case (r_scan s els now)
  then show ?case by (simp add: scanAll_count_inv)
next
  case (r_settle s i resp now els)
  then show ?case by (simp add: settle_count_inv)
next
  case (r_finally s i)
  then show ?case by (simp add: finally_step_count_inv)
next
  case (r_onerror s n)
  then show ?case by (simp add: onerror_def count_inv_def)
qed

text \<open>
  Claim C1. In every reachable state the number of lookups in flight, which \<open>activeCount\<close>
  counts exactly, is at most \<open>MAX_CONCURRENT\<close>. Whatever the outcome of a pending lookup,
  its \<open>then\<close>/\<open>catch\<close> step leaves the count alone and its \<open>finally\<close> step lowers it by one
  and drains the queue: it starts the first \<open>k\<close> queued items, where \<open>k\<close> is the smaller of
  the queue length and the number of free slots, so the count stays within the bound.
\<close>

theorem active_count_bounded:
  assumes "reachable s"
  shows "activeCount s = int (length (in_flight s)) \<and> activeCount s \<le> MAX_CONCURRENT \<and>
    (\<forall>i resp now els. i < length (in_flight s) \<longrightarrow>
       (let s1 = settle i resp now els s;
            s2 = finally_step i s1;
            k = min (length (queue s)) (nat (MAX_CONCURRENT - (activeCount s - 1)))
        in activeCount s1 = activeCount s \<and>
           activeCount s2 = activeCount s - 1 + int k \<and>
           activeCount s2 \<le> MAX_CONCURRENT \<and>
           queue s2 = drop k (queue s) \<and>
           in_flight s2 = take i (in_flight s1) @ drop (Suc i) (in_flight s1)
                            @ map mk_request (take k (queue s))))"
proof -
  have inv: "count_inv s" using assms by (rule reachable_count_inv)
  then have a: "activeCount s = int (length (in_flight s))" "activeCount s \<le> MAX_CONCURRENT"
    by (simp_all add: count_inv_def)
  have b: "\<And>i resp now els. i < length (in_flight s) \<Longrightarrow>
       (let s1 = settle i resp now els s;
            s2 = finally_step i s1;
            k = min (length (queue s)) (nat (MAX_CONCURRENT - (activeCount s - 1)))
        in activeCount s1 = activeCount s \<and>
           activeCount s2 = activeCount s - 1 + int k \<and>
           activeCount s2 \<le> MAX_CONCURRENT \<and>
           queue s2 = drop k (queue s) \<and>
           in_flight s2 = take i (in_flight s1) @ drop (Suc i) (in_flight s1)
                            @ map mk_request (take k (queue s)))"
  proof -
    fix i resp now els
    assume i: "i < length (in_flight s)"
    let ?s1 = "settle i resp now els s"
    let ?m = "?s1\<lparr>activeCount := activeCount ?s1 - 1,
                   in_flight := take i (in_flight ?s1) @ drop (Suc i) (in_flight ?s1)\<rparr>"
    have le: "activeCount ?m \<le> MAX_CONCURRENT" using a by simp
    have "finally_step i ?s1 = drainQueue ?m" by (simp add: finally_step_def)
    also note drainQueue_eq[OF le]
    finally have eq: "finally_step i ?s1 = 
      (let k = min (length (queue ?m)) (nat (MAX_CONCURRENT - activeCount ?m))
      in ?m\<lparr>queue := drop k (queue ?m),
           activeCount := activeCount ?m + int k,
           in_flight := in_flight ?m @ map mk_request (take k (queue ?m))\<rparr>)" .
    show "(let s1 = settle i resp now els s;
            s2 = finally_step i s1;
            k = min (length (queue s)) (nat (MAX_CONCURRENT - (activeCount s - 1)))
        in activeCount s1 = activeCount s \<and>
           activeCount s2 = activeCount s - 1 + int k \<and>
           activeCount s2 \<le> MAX_CONCURRENT \<and>
           queue s2 = drop k (queue s) \<and>
           in_flight s2 = take i (in_flight s1) @ drop (Suc i) (in_flight s1)
                            @ map mk_request (take k (queue s)))"
      unfolding Let_def eq using a i by (auto simp: Let_def min_def)
  qed
  show ?thesis using a b by blast
qed

theorem active_count_bounded_witness:
  "reachable one_lookup \<and> activeCount one_lookup = 1 \<and> 0 < length (in_flight one_lookup) \<and>
   activeCount one_lookup \<le> MAX_CONCURRENT \<and>
   activeCount (finally_step 0 (settle 0 NetworkError 2000 [alice_el] one_lookup)) = 0 \<and>
   queue (finally_step 0 (settle 0 NetworkError 2000 [alice_el] one_lookup)) = []"
proof -
  have r: "reachable one_lookup"
    unfolding one_lookup_def by (intro r_scan r_init)
  have n: "0 < length (in_flight one_lookup)" "activeCount one_lookup = 1" "queue one_lookup = []"
    by code_simp+
  from active_count_bounded[OF r] r n show ?thesis
    by (simp add: Let_def)
qed

subsection \<open>Service nicknames\<close>

lemma drainQueue_steps:
  "drainQueue s =
     (let k = min (length (queue s)) (nat (MAX_CONCURRENT - activeCount s))
      in s\<lparr>queue := drop k (queue s),
           activeCount := activeCount s + int k,
           in_flight := in_flight s @ map mk_request (take k (queue s))\<rparr>)"
proof (cases "activeCount s \<le> MAX_CONCURRENT")
  case True
  then show ?thesis by (rule drainQueue_eq)
next
  case False
  then show ?thesis by (subst drainQueue.simps) simp
qed

lemma drainQueue_queue: "set (queue (drainQueue s)) \<subseteq> set (queue s)"
  by (auto simp: drainQueue_steps Let_def dest: in_set_dropD)

lemma drainQueue_in_flight:
  "set (in_flight (drainQueue s)) \<subseteq> set (in_flight s) \<union> mk_request ` set (queue s)"
  by (auto simp: drainQueue_steps Let_def dest: in_set_takeD)

lemma in_set_tl: "a \<in> set (tl xs) \<Longrightarrow> a \<in> set xs"
  by (cases xs) auto

lemma data_nick_new_avatar [simp]: "data_nick (new_avatar el nick u) = nick"
  by (simp add: new_avatar_def createAvatarEl_def)

lemma injectAvatar_eq:
  "injectAvatar el nick u s =
     (if getContext el = Other \<or> shows_nick s (target_of el (getContext el)) nick then s
      else s\<lparr>tl_avatars := (tl_avatars s)
               (target_of el (getContext el) :=
                  new_avatar el nick u # tl (tl_avatars s (target_of el (getContext el))))\<rparr>)"
  by (auto simp: injectAvatar_def Let_def shows_nick_def new_avatar_def querySelector_def
        insertBefore_def removeChild_def split: list.splits)

lemma nonservice_removeChild: "nonservice_inv s \<Longrightarrow> nonservice_inv (removeChild n s)"
  by (auto simp: nonservice_inv_def removeChild_def dest: in_set_tl)

lemma nonservice_injectAvatar:
  "nonservice_inv s \<Longrightarrow> \<not> isServiceNick nick \<Longrightarrow> nonservice_inv (injectAvatar el nick u s)"
  unfolding nonservice_inv_def injectAvatar_eq
  by (auto dest: in_set_tl)

lemma nonservice_drainQueue: "nonservice_inv s \<Longrightarrow> nonservice_inv (drainQueue s)"
  unfolding nonservice_inv_def
  using drainQueue_queue[of s] drainQueue_in_flight[of s]
  by (auto simp: mk_request_def) force

lemma nonservice_enqueue:
  "nonservice_inv s \<Longrightarrow> \<not> isServiceNick nick \<Longrightarrow> nonservice_inv (enqueue nick s)"
  unfolding enqueue_def Let_def
  by (auto intro!: nonservice_drainQueue) (auto simp: nonservice_inv_def)

lemma nonservice_processUserElement:
  "nonservice_inv s \<Longrightarrow> nonservice_inv (processUserElement el now s)"
  by (rule processUserElement_cases[where P = nonservice_inv])
     (simp_all add: nonservice_removeChild nonservice_injectAvatar nonservice_enqueue,
      simp add: nonservice_inv_def)

lemma fold_preserves:
  "P s \<Longrightarrow> (\<And>x s. x \<in> set xs \<Longrightarrow> P s \<Longrightarrow> P (f x s)) \<Longrightarrow> P (fold f xs s)"
  by (induction xs arbitrary: s) auto

lemma nonservice_scanAll: "nonservice_inv s \<Longrightarrow> nonservice_inv (scanAll els now s)"
  unfolding scanAll_def by (rule fold_preserves) (auto intro: nonservice_processUserElement)

lemma nonservice_injectAllForNick:
  "nonservice_inv s \<Longrightarrow> \<not> isServiceNick nick \<Longrightarrow> nonservice_inv (injectAllForNick nick u els s)"
  unfolding injectAllForNick_def by (rule fold_preserves) (auto intro: nonservice_injectAvatar)

lemma nonservice_cache_upd: "nonservice_inv (s\<lparr>cache := c\<rparr>) = nonservice_inv s"
  by (simp add: nonservice_inv_def)

lemma nonservice_settle:
  assumes "nonservice_inv s" "i < length (in_flight s)"
  shows "nonservice_inv (settle i resp now els s)"
proof -
  let ?r = "in_flight s ! i"
  let ?s0 = "s\<lparr>in_flight := (in_flight s)[i := ?r\<lparr>settled := True\<rparr>]\<rparr>"
  have ns: "\<not> isServiceNick (req_nick ?r)"
    using assms by (auto simp: nonservice_inv_def)
  have s0: "nonservice_inv ?s0"
    using assms ns unfolding nonservice_inv_def
    by (auto dest!: set_update_subset_insert[THEN subsetD])
  have t: "nonservice_inv (then_data v now (req_nick ?r) (req_key ?r) els ?s0)" for v
    unfolding then_data_def Let_def
    using s0 ns
    by (auto split: option.split intro!: nonservice_injectAllForNick simp: nonservice_cache_upd)
  have c: "nonservice_inv (catch_error now (req_key ?r) ?s0)"
    using s0 by (simp add: catch_error_def nonservice_cache_upd)
  show ?thesis
    unfolding settle_def Let_def using t c by (simp split: response.split)
qed

lemma nonservice_finally_step:
  "nonservice_inv s \<Longrightarrow> nonservice_inv (finally_step i s)"
  unfolding finally_step_def
  by (rule nonservice_drainQueue) (auto simp: nonservice_inv_def dest: in_set_takeD in_set_dropD)

lemma reachable_nonservice: "reachable s \<Longrightarrow> nonservice_inv s"
proof (induction rule: reachable.induct)
  case r_init
  show ?case by (simp add: nonservice_inv_def init_state_def)
next
  case (r_scan s els now)
  then show ?case by (simp add: nonservice_scanAll)
next
  case (r_settle s i resp now els)
  then show ?case by (simp add: nonservice_settle)
next
  case (r_finally s i)
  then show ?case by (simp add: nonservice_finally_step)
next
  case (r_onerror s n)
  then show ?case by (simp add: onerror_def nonservice_removeChild)
qed

lemma processUserElement_service:
  "data_name el = Some nick \<Longrightarrow> isServiceNick nick \<Longrightarrow> processUserElement el now t = t"
  by (simp add: processUserElement_def)

subsection \<open>One avatar per injection target\<close>

lemma single_removeChild: "single_inv s \<Longrightarrow> single_inv (removeChild n s)"
  by (auto simp: single_inv_def removeChild_def intro: le_trans[OF diff_le_self])

lemma tl_short: "length xs \<le> 1 \<Longrightarrow> tl xs = []"
  by (cases xs) auto

lemma single_injectAvatar: "single_inv s \<Longrightarrow> single_inv (injectAvatar el nick u s)"
  unfolding single_inv_def injectAvatar_eq
  by (simp add: tl_short)

lemma enqueue_avatars [simp]: "tl_avatars (enqueue nick s) = tl_avatars s"
  by (simp add: enqueue_def Let_def)

lemma single_cache [simp]: "single_inv (s\<lparr>cache := c\<rparr>) = single_inv s"
  by (simp add: single_inv_def)

lemma single_in_flight [simp]: "single_inv (s\<lparr>in_flight := c\<rparr>) = single_inv s"
  by (simp add: single_inv_def)

lemma single_enqueue [simp]: "single_inv (enqueue nick s) = single_inv s"
  by (simp add: single_inv_def)

lemma single_processUserElement: "single_inv s \<Longrightarrow> single_inv (processUserElement el now s)"
  by (rule processUserElement_cases[where P = single_inv])
     (simp_all add: single_removeChild single_injectAvatar)

lemma single_scanAll: "single_inv s \<Longrightarrow> single_inv (scanAll els now s)"
  unfolding scanAll_def by (rule fold_preserves) (auto intro: single_processUserElement)

lemma single_injectAllForNick: "single_inv s \<Longrightarrow> single_inv (injectAllForNick nick u els s)"
  unfolding injectAllForNick_def by (rule fold_preserves) (auto intro: single_injectAvatar)

lemma single_settle: "single_inv s \<Longrightarrow> single_inv (settle i resp now els s)"
  unfolding settle_def Let_def then_data_def catch_error_def
  by (simp split: response.split option.split add: single_injectAllForNick)

lemma single_finally_step: "single_inv s \<Longrightarrow> single_inv (finally_step i s)"
  by (simp add: finally_step_def single_inv_def)

lemma reachable_single: "reachable s \<Longrightarrow> single_inv s"
proof (induction rule: reachable.induct)
  case r_init
  show ?case by (simp add: single_inv_def init_state_def)
next
  case (r_scan s els now)
  then show ?case by (simp add: single_scanAll)
next
  case (r_settle s i resp now els)
  then show ?case by (simp add: single_settle)
next
  case (r_finally s i)
  then show ?case by (simp add: single_finally_step)
next
  case (r_onerror s n)
  then show ?case by (simp add: onerror_def single_removeChild)
qed

lemma injectAvatar_same:
  "shows_nick s (target_of el (getContext el)) nick \<Longrightarrow> injectAvatar el nick u s = s"
  by (simp add: injectAvatar_eq)

lemma processUserElement_same:
  "data_name el = Some nick \<Longrightarrow> shows_nick s (target_of el (getContext el)) nick
     \<Longrightarrow> processUserElement el now s = s"
  by (auto simp: processUserElement_def Let_def shows_nick_def split: option.splits)

lemma injectAvatar_shows:
  "getContext el \<noteq> Other \<Longrightarrow>
   shows_nick (injectAvatar el nick u s) (target_of el (getContext el)) nick"
  by (auto simp: injectAvatar_eq) (simp add: shows_nick_def querySelector_def)

lemma injectAvatar_idem:
  "injectAvatar el nick u (injectAvatar el nick u s) = injectAvatar el nick u s"
proof (cases "getContext el = Other")
  case True
  then show ?thesis by (simp add: injectAvatar_eq)
next
  case False
  then show ?thesis by (simp add: injectAvatar_same injectAvatar_shows)
qed

lemma injectAvatar_replaces:
  assumes "single_inv s" "getContext el \<noteq> Other"
    "\<not> shows_nick s (target_of el (getContext el)) nick"
  shows "tl_avatars (injectAvatar el nick u s) (target_of el (getContext el)) = [new_avatar el nick u]"
proof -
  have "tl (tl_avatars s (target_of el (getContext el))) = []"
    using assms(1) by (simp add: single_inv_def tl_short)
  then show ?thesis using assms by (simp add: injectAvatar_eq)
qed

text \<open>What a scan of one element leaves in the element's injection target.\<close>

lemma process_cached_target:
  assumes "tl_avatars s n = []" 
  shows "tl_avatars (process_cached el nick key cached now s) n = [] \<or>
         map data_nick (tl_avatars (process_cached el nick key cached now s) n) = [nick]"
proof -
  have i: "tl_avatars (injectAvatar el nick u s) n = [] \<or>
           map data_nick (tl_avatars (injectAvatar el nick u s) n) = [nick]" for u
    using assms by (auto simp: injectAvatar_eq)
  show ?thesis
    unfolding process_cached_def Let_def
    using assms i by (simp split: cached.split option.split)
qed

lemma processUserElement_stale:
  assumes "single_inv s" "data_name el = Some nick" "nick \<noteq> []" "\<not> isServiceNick nick"
    "getContext el \<noteq> Other" "\<not> shows_nick s (target_of el (getContext el)) nick"
  shows "tl_avatars (processUserElement el now s) (target_of el (getContext el)) = [] \<or>
    map data_nick (tl_avatars (processUserElement el now s) (target_of el (getContext el))) = [nick]"
proof -
  let ?t = "target_of el (getContext el)"
  have l: "length (tl_avatars s ?t) \<le> 1" using assms(1) by (simp add: single_inv_def)
  have e: "tl_avatars (removeChild ?t s) ?t = []"
    using l by (simp add: removeChild_def tl_short)
  show ?thesis
  proof (cases "querySelector s ?t")
    case None
    then have "tl_avatars s ?t = []" by (simp add: querySelector_def split: list.splits)
    from process_cached_target[OF this]
    show ?thesis using assms None
      by (simp add: processUserElement_def Let_def)
  next
    case (Some a)
    then have "data_nick a \<noteq> nick" using assms(6) by (simp add: shows_nick_def)
    then show ?thesis
      using process_cached_target[OF e] assms Some
      by (simp add: processUserElement_def Let_def)
  qed
qed

subsection \<open>Keys in the queue\<close>

lemma queue_inv_drainQueue: "queue_inv s \<Longrightarrow> queue_inv (drainQueue s)"
  unfolding queue_inv_def
  by (auto simp: drainQueue_steps Let_def drop_map[symmetric] distinct_drop dest: in_set_dropD)

lemma queue_inv_enqueue: "queue_inv s \<Longrightarrow> queue_inv (enqueue nick s)"
  unfolding enqueue_def Let_def
  by (auto intro!: queue_inv_drainQueue) (auto simp: queue_inv_def)

lemma queue_inv_queue: "queue s' = queue s \<Longrightarrow> queue_inv s \<Longrightarrow> queue_inv s'"
  by (simp add: queue_inv_def)

lemma queue_inv_processUserElement: "queue_inv s \<Longrightarrow> queue_inv (processUserElement el now s)"
  by (rule processUserElement_cases[where P = queue_inv])
     (simp_all add: queue_inv_enqueue, simp_all add: queue_inv_def)

lemma queue_inv_scanAll: "queue_inv s \<Longrightarrow> queue_inv (scanAll els now s)"
  unfolding scanAll_def by (rule fold_preserves) (auto intro: queue_inv_processUserElement)

lemma queue_inv_finally_step: "queue_inv s \<Longrightarrow> queue_inv (finally_step i s)"
  unfolding finally_step_def
  by (rule queue_inv_drainQueue) (simp add: queue_inv_def)

lemma reachable_queue_inv: "reachable s \<Longrightarrow> queue_inv s"
proof (induction rule: reachable.induct)
  case r_init
  show ?case by (simp add: queue_inv_def init_state_def)
next
  case (r_scan s els now)
  then show ?case by (simp add: queue_inv_scanAll)
next
  case (r_settle s i resp now els)
  then show ?case by (simp add: queue_inv_def)
next
  case (r_finally s i)
  then show ?case by (simp add: queue_inv_finally_step)
next
  case (r_onerror s n)
  then show ?case by (simp add: onerror_def queue_inv_def)
qed

text \<open>
  What does hold of the queue in every reachable state: no key occurs twice, each key is
  its nickname in lower case, and \<open>enqueue\<close> changes nothing when the key is in the cache or
  already in the queue.
\<close>

lemma queue_keys_distinct:
  assumes "reachable s"
  shows "distinct (map snd (queue s)) \<and>
     (\<forall>item \<in> set (queue s). snd item = toLowerCase (fst item)) \<and>
     (\<forall>nick. cache s (toLowerCase nick) \<noteq> None \<or> toLowerCase nick \<in> snd ` set (queue s)
        \<longrightarrow> enqueue nick s = s)"
proof -
  have "queue_inv s" using assms by (rule reachable_queue_inv)
  moreover have "enqueue nick s = s"
    if "cache s (toLowerCase nick) \<noteq> None \<or> toLowerCase nick \<in> snd ` set (queue s)" for nick
    using that by (auto simp: enqueue_def Let_def cache_at_def)
  ultimately show ?thesis by (simp add: queue_inv_def)
qed

lemma reachable_alice_requeued: "reachable alice_requeued"
  unfolding alice_requeued_def three_in_flight_def by (intro r_scan r_init)

text \<open>
  Claim C2. The queue is to hold no key that the cache holds, so that the lookups for one
  nickname collapse to one fetch. The code misses the lookups in flight: with \<open>alice\<close>,
  \<open>bob\<close> and \<open>carol\<close> in flight, a second scan queues \<open>alice\<close> again; when her first
  lookup completes, the cache holds \<open>alice\<close> while the queue still does, and as soon as a
  slot is free \<open>alice\<close> is fetched a second time although she is cached.
\<close>

theorem queue_holds_cached_key:
  "reachable alice_cached_and_queued \<and>
   map snd (queue alice_cached_and_queued) = [''alice''] \<and>
   cache alice_cached_and_queued ''alice'' = Some \<lparr>url = Some ''/media/avatars/a.png'', ts = 200\<rparr> \<and>
   reachable alice_refetched \<and>
   map req_key (in_flight alice_refetched) = [''carol'', ''dave'', ''alice''] \<and>
   cache alice_refetched ''alice'' = Some \<lparr>url = Some ''/media/avatars/a.png'', ts = 200\<rparr>"
proof -
  have a: "0 < length (in_flight alice_requeued)" "\<not> settled (in_flight alice_requeued ! 0)"
    by code_simp+
  have "reachable alice_settled"
    unfolding alice_settled_def using reachable_alice_requeued a by (rule r_settle)
  moreover have "0 < length (in_flight alice_settled)" "settled (in_flight alice_settled ! 0)"
    by code_simp+
  ultimately have r: "reachable alice_cached_and_queued"
    unfolding alice_cached_and_queued_def by (rule r_finally)
  have b: "0 < length (in_flight alice_cached_and_queued)"
    "\<not> settled (in_flight alice_cached_and_queued ! 0)"
    by code_simp+
  have r1: "reachable (settle 0 NotOk 300 [] alice_cached_and_queued)"
    using r b by (rule r_settle)
  have "0 < length (in_flight (settle 0 NotOk 300 [] alice_cached_and_queued))"
    "settled (in_flight (settle 0 NotOk 300 [] alice_cached_and_queued) ! 0)"
    by code_simp+
  with r1 have r2: "reachable alice_refetched"
    unfolding alice_refetched_def by (rule r_finally)
  have v: "map snd (queue alice_cached_and_queued) = [''alice'']"
    "cache alice_cached_and_queued ''alice''
      = Some \<lparr>url = Some ''/media/avatars/a.png'', ts = 200\<rparr>"
    "map req_key (in_flight alice_refetched) = [''carol'', ''dave'', ''alice'']"
    "cache alice_refetched ''alice'' = Some \<lparr>url = Some ''/media/avatars/a.png'', ts = 200\<rparr>"
    by code_simp+
  show ?thesis using r r2 v by simp
qed

text \<open>
  Claim C5. For a service nickname, in any letter case: no avatar in the document records
  it, no queued or pending lookup is for it, scanning an element with that name changes
  nothing whatever the state (cache and queue included), and the completion of a pending
  lookup injects nothing into such an element.
\<close>

theorem service_nicks_never_injected:
  assumes "reachable s" and "isServiceNick nick"
  shows "(\<forall>n. \<forall>a \<in> set (tl_avatars s n). data_nick a \<noteq> nick) \<and>
         nick \<notin> fst ` set (queue s) \<and>
         nick \<notin> req_nick ` set (in_flight s) \<and>
         (\<forall>el now t. data_name el = Some nick \<longrightarrow> processUserElement el now t = t) \<and>
         (\<forall>el i u. data_name el = Some nick \<longrightarrow> i < length (in_flight s) \<longrightarrow>
            injectAllForNick (req_nick (in_flight s ! i)) u [el] s = s)"
proof -
  have inv: "nonservice_inv s" using assms(1) by (rule reachable_nonservice)
  have a: "\<forall>n. \<forall>a \<in> set (tl_avatars s n). data_nick a \<noteq> nick"
    using inv assms(2) by (auto simp: nonservice_inv_def)
  have q: "nick \<notin> fst ` set (queue s)"
    using inv assms(2) by (auto simp: nonservice_inv_def)
  have f: "nick \<notin> req_nick ` set (in_flight s)"
    using inv assms(2) by (auto simp: nonservice_inv_def)
  have p: "\<forall>el now t. data_name el = Some nick \<longrightarrow> processUserElement el now t = t"
    using assms(2) by (simp add: processUserElement_service)
  have c: "injectAllForNick (req_nick (in_flight s ! i)) u [el] s = s"
    if "data_name el = Some nick" "i < length (in_flight s)" for el i u
  proof -
    have "req_nick (in_flight s ! i) \<noteq> nick" using f that(2) by (metis image_eqI nth_mem)
    then show ?thesis using that(1) by (simp add: injectAllForNick_def)
  qed
  show ?thesis using a q f p c by blast
qed

theorem service_nicks_never_injected_witness:
  "reachable one_lookup \<and> isServiceNick ''ChanServ'' \<and>
   data_name chanserv_el = Some ''ChanServ'' \<and>
   processUserElement chanserv_el 5 chanserv_cached = chanserv_cached \<and>
   0 < length (in_flight one_lookup) \<and>
   injectAllForNick (req_nick (in_flight one_lookup ! 0)) ''/media/avatars/a.png'' [chanserv_el]
     one_lookup = one_lookup \<and>
   tl_avatars (scanAll [chanserv_el] 5 chanserv_cached) 7 = []"
proof -
  have r: "reachable one_lookup"
    unfolding one_lookup_def by (intro r_scan r_init)
  have s: "isServiceNick ''ChanServ''" by code_simp
  have d: "data_name chanserv_el = Some ''ChanServ''" by (simp add: chanserv_el_def)
  have l: "0 < length (in_flight one_lookup)" by code_simp
  have e: "tl_avatars (scanAll [chanserv_el] 5 chanserv_cached) 7 = []" by code_simp
  from service_nicks_never_injected[OF r s] r s d l e show ?thesis by simp
qed

text \<open>
  Claim C6. In every reachable state each node holds at most one avatar, and so it does
  after \<open>injectAvatar\<close> or the scan of one element. \<open>injectAvatar\<close> is idempotent; when the
  avatar already in the target records the same nickname, \<open>injectAvatar\<close> and the scan change
  nothing; when it records another nickname (or there is none), \<open>injectAvatar\<close> leaves exactly
  the new avatar, and the scan leaves the target empty or with one avatar for the nickname.
\<close>

theorem one_avatar_per_target:
  assumes "reachable s"
  shows "(\<forall>n. length (tl_avatars s n) \<le> 1) \<and>
    (\<forall>el nick u.
       (\<forall>n. length (tl_avatars (injectAvatar el nick u s) n) \<le> 1) \<and>
       injectAvatar el nick u (injectAvatar el nick u s) = injectAvatar el nick u s \<and>
       (shows_nick s (target_of el (getContext el)) nick \<longrightarrow> injectAvatar el nick u s = s) \<and>
       (getContext el \<noteq> Other \<and> \<not> shows_nick s (target_of el (getContext el)) nick \<longrightarrow>
          tl_avatars (injectAvatar el nick u s) (target_of el (getContext el))
            = [new_avatar el nick u])) \<and>
    (\<forall>el nick now.
       data_name el = Some nick \<longrightarrow>
       (\<forall>n. length (tl_avatars (processUserElement el now s) n) \<le> 1) \<and>
       (shows_nick s (target_of el (getContext el)) nick \<longrightarrow> processUserElement el now s = s) \<and>
       (nick \<noteq> [] \<and> \<not> isServiceNick nick \<and> getContext el \<noteq> Other \<and>
        \<not> shows_nick s (target_of el (getContext el)) nick \<longrightarrow>
          tl_avatars (processUserElement el now s) (target_of el (getContext el)) = [] \<or>
          map data_nick (tl_avatars (processUserElement el now s) (target_of el (getContext el)))
            = [nick]))"
proof -
  have inv: "single_inv s" using assms by (rule reachable_single)
  have a: "\<forall>n. length (tl_avatars s n) \<le> 1" using inv by (simp add: single_inv_def)
  have b: "\<forall>n. length (tl_avatars (injectAvatar el nick u s) n) \<le> 1" for el nick u
    using single_injectAvatar[OF inv] by (simp add: single_inv_def)
  have c: "\<forall>n. length (tl_avatars (processUserElement el now s) n) \<le> 1" for el now
    using single_processUserElement[OF inv] by (simp add: single_inv_def)
  have d: "tl_avatars (processUserElement el now s) (target_of el (getContext el)) = [] \<or>
          map data_nick (tl_avatars (processUserElement el now s) (target_of el (getContext el)))
            = [nick]"
    if "data_name el = Some nick" "nick \<noteq> []" "\<not> isServiceNick nick" "getContext el \<noteq> Other"
       "\<not> shows_nick s (target_of el (getContext el)) nick" for el nick now
    using processUserElement_stale[OF inv that] .
  have B: "(\<forall>n. length (tl_avatars (injectAvatar el nick u s) n) \<le> 1) \<and>
       injectAvatar el nick u (injectAvatar el nick u s) = injectAvatar el nick u s \<and>
       (shows_nick s (target_of el (getContext el)) nick \<longrightarrow> injectAvatar el nick u s = s) \<and>
       (getContext el \<noteq> Other \<and> \<not> shows_nick s (target_of el (getContext el)) nick \<longrightarrow>
          tl_avatars (injectAvatar el nick u s) (target_of el (getContext el))
            = [new_avatar el nick u])" for el nick u
  proof (intro conjI impI)
    show "\<forall>n. length (tl_avatars (injectAvatar el nick u s) n) \<le> 1" by (rule b)
    show "injectAvatar el nick u (injectAvatar el nick u s) = injectAvatar el nick u s"
      by (rule injectAvatar_idem)
    show "injectAvatar el nick u s = s" if "shows_nick s (target_of el (getContext el)) nick"
      using that by (rule injectAvatar_same)
    show "tl_avatars (injectAvatar el nick u s) (target_of el (getContext el))
            = [new_avatar el nick u]"
      if "getContext el \<noteq> Other \<and> \<not> shows_nick s (target_of el (getContext el)) nick"
      using injectAvatar_replaces[OF inv] that by blast
  qed
  have C: "data_name el = Some nick \<longrightarrow>
       (\<forall>n. length (tl_avatars (processUserElement el now s) n) \<le> 1) \<and>
       (shows_nick s (target_of el (getContext el)) nick \<longrightarrow> processUserElement el now s = s) \<and>
       (nick \<noteq> [] \<and> \<not> isServiceNick nick \<and> getContext el \<noteq> Other \<and>
        \<not> shows_nick s (target_of el (getContext el)) nick \<longrightarrow>
          tl_avatars (processUserElement el now s) (target_of el (getContext el)) = [] \<or>
          map data_nick (tl_avatars (processUserElement el now s) (target_of el (getContext el)))
            = [nick])" for el nick now
  proof (intro conjI impI)
    assume n: "data_name el = Some nick"
    show "\<forall>n. length (tl_avatars (processUserElement el now s) n) \<le> 1" by (rule c)
    show "processUserElement el now s = s" if "shows_nick s (target_of el (getContext el)) nick"
      using n that by (rule processUserElement_same)
    show "tl_avatars (processUserElement el now s) (target_of el (getContext el)) = [] \<or>
          map data_nick (tl_avatars (processUserElement el now s) (target_of el (getContext el)))
            = [nick]"
      if "nick \<noteq> [] \<and> \<not> isServiceNick nick \<and> getContext el \<noteq> Other \<and>
        \<not> shows_nick s (target_of el (getContext el)) nick"
      using d[OF n] that by blast
  qed
  have B': "\<forall>el nick u. (\<forall>n. length (tl_avatars (injectAvatar el nick u s) n) \<le> 1) \<and>
       injectAvatar el nick u (injectAvatar el nick u s) = injectAvatar el nick u s \<and>
       (shows_nick s (target_of el (getContext el)) nick \<longrightarrow> injectAvatar el nick u s = s) \<and>
       (getContext el \<noteq> Other \<and> \<not> shows_nick s (target_of el (getContext el)) nick \<longrightarrow>
          tl_avatars (injectAvatar el nick u s) (target_of el (getContext el))
            = [new_avatar el nick u])"
    by (intro allI) (rule B)
  have C': "\<forall>el nick now. data_name el = Some nick \<longrightarrow>
       (\<forall>n. length (tl_avatars (processUserElement el now s) n) \<le> 1) \<and>
       (shows_nick s (target_of el (getContext el)) nick \<longrightarrow> processUserElement el now s = s) \<and>
       (nick \<noteq> [] \<and> \<not> isServiceNick nick \<and> getContext el \<noteq> Other \<and>
        \<not> shows_nick s (target_of el (getContext el)) nick \<longrightarrow>
          tl_avatars (processUserElement el now s) (target_of el (getContext el)) = [] \<or>
          map data_nick (tl_avatars (processUserElement el now s) (target_of el (getContext el)))
            = [nick])"
    by (intro allI) (rule C)
  show ?thesis by (rule conjI[OF a conjI[OF B' C']])
qed

lemma reachable_one_lookup: "reachable one_lookup"
  unfolding one_lookup_def by (intro r_scan r_init)

lemma one_lookup_pending:
  "0 < length (in_flight one_lookup)" "\<not> settled (in_flight one_lookup ! 0)"
  "req_nick (in_flight one_lookup ! 0) = ''Alice''" "req_key (in_flight one_lookup ! 0) = ''alice''"
  by code_simp+

lemma reachable_alice_shown: "reachable alice_shown"
  unfolding alice_shown_def
  using reachable_one_lookup one_lookup_pending(1,2) by (rule r_settle)

theorem one_avatar_per_target_witness:
  "reachable alice_shown \<and>
   map data_nick (tl_avatars alice_shown 1) = [''Alice''] \<and>
   data_name alice_el = Some ''Alice'' \<and>
   shows_nick alice_shown (target_of alice_el (getContext alice_el)) ''Alice'' \<and>
   injectAvatar alice_el ''Alice'' ''/media/avatars/a.png'' alice_shown = alice_shown \<and>
   processUserElement alice_el 3000 alice_shown = alice_shown \<and>
   data_name (nicklist_el ''bob'' 1) = Some ''bob'' \<and>
   \<not> shows_nick alice_shown (target_of (nicklist_el ''bob'' 1) (getContext (nicklist_el ''bob'' 1))) ''bob'' \<and>
   map data_nick (tl_avatars (injectAvatar (nicklist_el ''bob'' 1) ''bob'' ''/media/avatars/b.png''
      alice_shown) 1) = [''bob''] \<and>
   tl_avatars (processUserElement (nicklist_el ''bob'' 1) 3000 alice_shown) 1 = []"
proof -
  have a: "shows_nick alice_shown (target_of alice_el (getContext alice_el)) ''Alice''"
    "data_name alice_el = Some ''Alice''"
    "map data_nick (tl_avatars alice_shown 1) = [''Alice'']"
    by code_simp+
  have b: "\<not> shows_nick alice_shown (target_of (nicklist_el ''bob'' 1) (getContext (nicklist_el ''bob'' 1))) ''bob''"
    "getContext (nicklist_el ''bob'' 1) \<noteq> Other" "\<not> isServiceNick ''bob''"
    "data_name (nicklist_el ''bob'' 1) = Some ''bob''"
    "target_of (nicklist_el ''bob'' 1) (getContext (nicklist_el ''bob'' 1)) = 1"
    by code_simp+
  have c: "tl_avatars (processUserElement (nicklist_el ''bob'' 1) 3000 alice_shown) 1 = []"
    by code_simp
  note t = one_avatar_per_target[OF reachable_alice_shown]
  note tB = t[THEN conjunct2, THEN conjunct1, rule_format]
  note tC = t[THEN conjunct2, THEN conjunct2, rule_format]
  have t1: "injectAvatar alice_el ''Alice'' ''/media/avatars/a.png'' alice_shown = alice_shown"
    by (rule tB[THEN conjunct2, THEN conjunct2, THEN conjunct1, rule_format, OF a(1)])
  have t2: "processUserElement alice_el 3000 alice_shown = alice_shown"
    by (rule tC[OF a(2), THEN conjunct2, THEN conjunct1, rule_format, OF a(1)])
  have t3: "tl_avatars (injectAvatar (nicklist_el ''bob'' 1) ''bob'' ''/media/avatars/b.png'' alice_shown)
      (target_of (nicklist_el ''bob'' 1) (getContext (nicklist_el ''bob'' 1)))
     = [new_avatar (nicklist_el ''bob'' 1) ''bob'' ''/media/avatars/b.png'']"
    by (rule tB[THEN conjunct2, THEN conjunct2, THEN conjunct2, rule_format, OF conjI[OF b(2) b(1)]])
  have t4: "map data_nick (tl_avatars (injectAvatar (nicklist_el ''bob'' 1) ''bob'' ''/media/avatars/b.png''
      alice_shown) 1) = [''bob'']"
    using t3 unfolding b(5) by simp
  from reachable_alice_shown a b(1,4) c t1 t2 t4 show ?thesis by (intro conjI)
qed

subsection \<open>The outcome of a lookup\<close>

lemma shows_nick_injectAvatar:
  "shows_nick s n nick \<Longrightarrow> shows_nick (injectAvatar el nick u s) n nick"
  by (auto simp: injectAvatar_eq) (simp add: shows_nick_def querySelector_def)

lemma shows_nick_fold:
  "shows_nick s n nick \<Longrightarrow> shows_nick (fold (\<lambda>el. injectAvatar el nick u) xs s) n nick"
  by (rule fold_preserves) (auto intro: shows_nick_injectAvatar)

lemma fold_injectAvatar_shows:
  "el \<in> set xs \<Longrightarrow> getContext el \<noteq> Other \<Longrightarrow>
   shows_nick (fold (\<lambda>el. injectAvatar el nick u) xs s) (target_of el (getContext el)) nick"
proof (induction xs arbitrary: s)
  case Nil
  then show ?case by simp
next
  case (Cons x xs)
  show ?case
  proof (cases "el = x")
    case True
    then show ?thesis
      using Cons.prems(2) by (simp add: shows_nick_fold injectAvatar_shows)
  next
    case False
    then show ?thesis using Cons by simp
  qed
qed

lemma injectAllForNick_shows:
  "el \<in> set els \<Longrightarrow> data_name el = Some nick \<Longrightarrow> getContext el \<noteq> Other \<Longrightarrow>
   shows_nick (injectAllForNick nick u els s) (target_of el (getContext el)) nick"
  unfolding injectAllForNick_def by (rule fold_injectAvatar_shows) auto

lemma shows_nick_frame:
  "tl_avatars s' = tl_avatars s \<Longrightarrow> shows_nick s' n nick = shows_nick s n nick"
  by (simp add: shows_nick_def querySelector_def)

lemma injectAvatar_avatars_frame:
  "tl_avatars s' = tl_avatars s \<Longrightarrow>
   tl_avatars (injectAvatar el nick u s') = tl_avatars (injectAvatar el nick u s)"
  by (simp add: injectAvatar_eq shows_nick_def querySelector_def)

lemma fold_injectAvatar_frame:
  "tl_avatars s' = tl_avatars s \<Longrightarrow>
   tl_avatars (fold (\<lambda>el. injectAvatar el nick u) xs s')
     = tl_avatars (fold (\<lambda>el. injectAvatar el nick u) xs s)"
proof (induction xs arbitrary: s s')
  case Nil
  then show ?case by simp
next
  case (Cons x xs)
  show ?case
    using Cons.IH[OF injectAvatar_avatars_frame[OF Cons.prems]] by simp
qed

lemma injectAllForNick_avatars_frame:
  "tl_avatars s' = tl_avatars s \<Longrightarrow>
   tl_avatars (injectAllForNick nick u els s') = tl_avatars (injectAllForNick nick u els s)"
  unfolding injectAllForNick_def by (rule fold_injectAvatar_frame)

text \<open>
  Claim C3, as amended. When a pending lookup settles at time \<open>now\<close>: if the body carries a
  non-empty \<open>avatar_url\<close> that does not start with \<open>/static/\<close>, the cache gets a positive
  entry stamped \<open>now\<close>, the document is what \<open>injectAllForNick\<close> makes of it, and every element
  of a recognised context whose \<open>data-name\<close> is the nickname then shows its avatar. After
  every other outcome the cache gets a negative entry stamped \<open>now\<close> and the document is
  unchanged.
\<close>

theorem lookup_outcome_cached:
  assumes "i < length (in_flight s)"
  shows "(case usable_avatar_url resp of
            Some u \<Rightarrow>
              cache (settle i resp now els s) (req_key (in_flight s ! i))
                = Some \<lparr>url = Some u, ts = now\<rparr> \<and>
              tl_avatars (settle i resp now els s)
                = tl_avatars (injectAllForNick (req_nick (in_flight s ! i)) u els s) \<and>
              (\<forall>el \<in> set els.
                 data_name el = Some (req_nick (in_flight s ! i)) \<and> getContext el \<noteq> Other \<longrightarrow>
                 shows_nick (settle i resp now els s) (target_of el (getContext el))
                   (req_nick (in_flight s ! i)))
          | None \<Rightarrow>
              cache (settle i resp now els s) (req_key (in_flight s ! i))
                = Some \<lparr>url = None, ts = now\<rparr> \<and>
              tl_avatars (settle i resp now els s) = tl_avatars s)"
proof (cases "usable_avatar_url resp")
  case None
  then show ?thesis
    by (auto simp: usable_avatar_url_def settle_def Let_def then_data_def catch_error_def
             split: response.splits option.splits if_splits)
next
  case (Some u)
  then have resp: "resp = Body (Some u)" and u: "u \<noteq> []" "\<not> startsWith ''/static/'' u"
    by (auto simp: usable_avatar_url_def split: response.splits option.splits if_splits)
  let ?r = "in_flight s ! i"
  let ?s1 = "s\<lparr>in_flight := (in_flight s)[i := ?r\<lparr>settled := True\<rparr>],
              cache := (cache s)(req_key ?r \<mapsto> \<lparr>url = Some u, ts = now\<rparr>)\<rparr>"
  have eq: "settle i resp now els s = injectAllForNick (req_nick ?r) u els ?s1"
    using resp u by (simp add: settle_def Let_def then_data_def)
  have c: "cache (settle i resp now els s) (req_key ?r) = Some \<lparr>url = Some u, ts = now\<rparr>"
    unfolding eq by simp
  have a: "tl_avatars (settle i resp now els s) = tl_avatars (injectAllForNick (req_nick ?r) u els s)"
    unfolding eq by (rule injectAllForNick_avatars_frame) simp
  have b: "\<forall>el \<in> set els. data_name el = Some (req_nick ?r) \<and> getContext el \<noteq> Other \<longrightarrow>
        shows_nick (settle i resp now els s) (target_of el (getContext el)) (req_nick ?r)"
    unfolding eq by (auto intro: injectAllForNick_shows)
  show ?thesis using Some a b c by simp
qed

theorem lookup_outcome_cached_witness:
  "0 < length (in_flight one_lookup) \<and>
   usable_avatar_url (Body (Some ''/media/avatars/a.png'')) = Some ''/media/avatars/a.png'' \<and>
   cache (settle 0 (Body (Some ''/media/avatars/a.png'')) 2000 [alice_el] one_lookup) ''alice''
     = Some \<lparr>url = Some ''/media/avatars/a.png'', ts = 2000\<rparr> \<and>
   shows_nick (settle 0 (Body (Some ''/media/avatars/a.png'')) 2000 [alice_el] one_lookup) 1 ''Alice'' \<and>
   usable_avatar_url NotOk = None \<and>
   cache (settle 0 NotOk 2000 [alice_el] one_lookup) ''alice'' = Some \<lparr>url = None, ts = 2000\<rparr> \<and>
   tl_avatars (settle 0 NotOk 2000 [alice_el] one_lookup) = tl_avatars one_lookup"
proof -
  have u: "usable_avatar_url (Body (Some ''/media/avatars/a.png'')) = Some ''/media/avatars/a.png''"
    "usable_avatar_url NotOk = None"
    by code_simp+
  have e: "data_name alice_el = Some ''Alice''" "getContext alice_el \<noteq> Other"
    "target_of alice_el (getContext alice_el) = 1"
    by code_simp+
  note p = lookup_outcome_cached[OF one_lookup_pending(1), of "Body (Some ''/media/avatars/a.png'')" 2000 "[alice_el]",
      unfolded u option.case one_lookup_pending(3,4)]
  note n = lookup_outcome_cached[OF one_lookup_pending(1), of NotOk 2000 "[alice_el]",
      unfolded u option.case one_lookup_pending(3,4)]
  have "shows_nick (settle 0 (Body (Some ''/media/avatars/a.png'')) 2000 [alice_el] one_lookup) 1 ''Alice''"
    using p[THEN conjunct2, THEN conjunct2] e by simp
  with p[THEN conjunct1] n u one_lookup_pending(1) show ?thesis by simp
qed

text \<open>
  Claim C3 as stated fails for the empty string: it is not \<open>null\<close> and does not start with
  \<open>/static/\<close>, yet it is falsy, so the entry is negative and nothing is injected.
\<close>

theorem empty_avatar_url_cached_negative:
  "0 < length (in_flight one_lookup) \<and> req_key (in_flight one_lookup ! 0) = ''alice'' \<and>
   \<not> startsWith ''/static/'' '''' \<and>
   cache (settle 0 (Body (Some '''')) 2000 [alice_el] one_lookup) ''alice''
     = Some \<lparr>url = None, ts = 2000\<rparr> \<and>
   tl_avatars (settle 0 (Body (Some '''')) 2000 [alice_el] one_lookup) 1 = []"
  by code_simp

subsection \<open>Expiry of negative entries\<close>

text \<open>
  While a negative entry is younger than \<open>NEGATIVE_TTL\<close>, the scan of an element for its
  nickname leaves cache, queue and pending lookups as they are.
\<close>

lemma unexpired_negative_skips:
  assumes "data_name el = Some nick" "cache s (toLowerCase nick) = Some e"
    "url e = None" "now - ts e < NEGATIVE_TTL"
  shows "cache (processUserElement el now s) = cache s \<and>
         queue (processUserElement el now s) = queue s \<and>
         activeCount (processUserElement el now s) = activeCount s \<and>
         in_flight (processUserElement el now s) = in_flight s"
proof -
  have "cache_at s (toLowerCase nick) = Entry e" using assms(2) by (simp add: cache_at_def)
  then show ?thesis
    using assms by (simp add: processUserElement_def process_cached_def Let_def split: option.split)
qed

lemma reachable_bob_negative: "reachable bob_negative"
proof -
  let ?s = "scanAll [nicklist_el ''bob'' 2] 0 init_state"
  have r: "reachable ?s" by (intro r_scan r_init)
  have "0 < length (in_flight ?s)" "\<not> settled (in_flight ?s ! 0)" by code_simp+
  with r have r2: "reachable (settle 0 (Body None) 0 [nicklist_el ''bob'' 2] ?s)" by (rule r_settle)
  have "0 < length (in_flight (settle 0 (Body None) 0 [nicklist_el ''bob'' 2] ?s))"
    "settled (in_flight (settle 0 (Body None) 0 [nicklist_el ''bob'' 2] ?s) ! 0)"
    by code_simp+
  with r2 show ?thesis unfolding bob_negative_def by (rule r_finally)
qed

text \<open>
  Claim C4. With a negative entry for \<open>bob\<close> stamped 0, a scan at 299999 ms starts no
  lookup, and a scan at 300000 ms that meets one element for \<open>bob\<close> starts one. A scan at
  300000 ms that meets two elements for \<open>bob\<close> starts two: the first lookup has left the
  queue when the second element is processed, and \<open>enqueue\<close> checks the queue only.
\<close>

theorem expired_rescan_fetches_twice:
  "reachable bob_negative \<and>
   cache bob_negative ''bob'' = Some \<lparr>url = None, ts = 0\<rparr> \<and>
   queue bob_negative = [] \<and> in_flight bob_negative = [] \<and>
   in_flight (scanAll [nicklist_el ''bob'' 2, msg_el ''bob'' 5 6] 299999 bob_negative) = [] \<and>
   map req_key (in_flight (scanAll [nicklist_el ''bob'' 2] 300000 bob_negative)) = [''bob''] \<and>
   map req_key (in_flight (scanAll [nicklist_el ''bob'' 2, msg_el ''bob'' 5 6] 300000 bob_negative))
     = [''bob'', ''bob'']"
proof -
  have "cache bob_negative ''bob'' = Some \<lparr>url = None, ts = 0\<rparr>"
    "queue bob_negative = []" "in_flight bob_negative = []"
    "in_flight (scanAll [nicklist_el ''bob'' 2, msg_el ''bob'' 5 6] 299999 bob_negative) = []"
    "map req_key (in_flight (scanAll [nicklist_el ''bob'' 2] 300000 bob_negative)) = [''bob'']"
    "map req_key (in_flight (scanAll [nicklist_el ''bob'' 2, msg_el ''bob'' 5 6] 300000 bob_negative))
     = [''bob'', ''bob'']"
    by code_simp+
  with reachable_bob_negative show ?thesis by simp
qed

section \<open>Properties of the colour settings\<close>

subsection \<open>Loading and saving\<close>

lemma assign_entry_add: "assign_entry x (t ++ m) = t ++ assign_entry x m"
  by (cases x) (simp add: assign_entry_def)

lemma fold_assign_add:
  "fold assign_entry kvs (t ++ m) = t ++ fold assign_entry kvs m"
  by (induction kvs arbitrary: m) (simp_all add: assign_entry_add)

lemma Object_assign_fold: "Object_assign t v = fold assign_entry (own_props v) t"
  by (simp add: Object_assign_def assign_entry_def)

lemma Object_assign_add: "Object_assign t v = t ++ Object_assign Map.empty v"
  using fold_assign_add[of "own_props v" t Map.empty] by (simp add: Object_assign_fold)

lemma dom_Object_assign: "dom t \<subseteq> dom (Object_assign t v)"
  by (subst Object_assign_add) auto

lemma fold_assign_other:
  "k \<notin> fst ` set kvs \<Longrightarrow> fold assign_entry kvs t k = t k"
  by (induction kvs arbitrary: t) (auto simp: assign_entry_def)

lemma Object_assign_other:
  "k \<notin> fst ` set (own_props v) \<Longrightarrow> Object_assign t v k = t k"
  by (simp add: Object_assign_fold fold_assign_other)

lemma Object_assign_JNull [simp]: "Object_assign t JNull = t"
  by (simp add: Object_assign_def)

lemma dom_DEFAULTS: "dom DEFAULTS = set (map fst DEFAULTS_entries)"
  by (simp add: DEFAULTS_def dom_map_of_conv_image_fst)

lemma assign_entry_apply:
  "assign_entry (k, v) t = (if k = ''__proto__'' then t else t(k \<mapsto> v))"
  by (simp add: assign_entry_def)

lemma fold_assign_own:
  "fold assign_entry kvs t = t ++ map_of (rev (filter (\<lambda>(k, x). k \<noteq> ''__proto__'') kvs))"
proof (induction kvs arbitrary: t)
  case Nil
  then show ?case by simp
next
  case (Cons x xs)
  obtain k v where x: "x = (k, v)" by (cases x)
  show ?case
  proof (cases "k = ''__proto__''")
    case True
    then show ?thesis unfolding x by (simp add: assign_entry_apply Cons.IH)
  next
    case False
    have "fold assign_entry (x # xs) t = fold assign_entry xs (t(k \<mapsto> v))"
      unfolding x using False by (simp add: assign_entry_apply)
    also have "\<dots> = t(k \<mapsto> v) ++ map_of (rev (filter (\<lambda>(k, x). k \<noteq> ''__proto__'') xs))"
      by (rule Cons.IH)
    also have "\<dots> = t ++ map_of (rev (filter (\<lambda>(k, x). k \<noteq> ''__proto__'') (x # xs)))"
      unfolding x using False by (auto simp: map_add_def fun_eq_iff split: option.splits)
    finally show ?thesis .
  qed
qed

lemma Object_assign_filling:
  "Object_assign DEFAULTS v = defaults_filling (own_values v)"
  unfolding Object_assign_fold fold_assign_own own_values_def defaults_filling_def
  by (auto simp: map_add_def fun_eq_iff split: option.splits)

lemma defaults_filling_empty [simp]: "defaults_filling Map.empty = DEFAULTS"
  by (simp add: defaults_filling_def)

lemma load_recovered:
  "load JSON_parse stored userStyles
     = Inr (defaults_filling (recovered_settings JSON_parse stored userStyles))"
proof (cases stored)
  case (Inl e)
  then show ?thesis by (simp add: load_def load_try_def recovered_settings_def)
next
  case (Inr raw)
  have st: "(if truthy (loadFromUserStyles JSON_parse userStyles)
             then Inr (Object_assign DEFAULTS (loadFromUserStyles JSON_parse userStyles))
             else Inr DEFAULTS)
          = (Inr (defaults_filling
               (case userStyles of
                  None \<Rightarrow> Map.empty
                | Some css \<Rightarrow>
                    (case find_block css of
                       None \<Rightarrow> Map.empty
                     | Some (p, b, r) \<Rightarrow>
                         (case JSON_parse (trim b) of
                            Inl e \<Rightarrow> Map.empty
                          | Inr v \<Rightarrow> if truthy v then own_values v else Map.empty)))) :: error + settings)"
    by (simp add: loadFromUserStyles_def parseTagFromCSS_def Object_assign_filling
             split: option.split sum.split prod.split)
  show ?thesis
  proof (cases raw)
    case None
    then show ?thesis
      using Inr st by (simp add: load_def load_try_def recovered_settings_def Let_def)
  next
    case (Some t)
    show ?thesis
    proof (cases "t = []")
      case True
      then show ?thesis
        using Inr Some st by (simp add: load_def load_try_def recovered_settings_def Let_def)
    next
      case False
      then show ?thesis
        using Inr Some
        by (simp add: load_def load_try_def recovered_settings_def Let_def Object_assign_filling
                 split: sum.split)
    qed
  qed
qed

text \<open>
  Claim C10. Whatever the storage does (it throws, holds nothing, holds text that parses or
  does not) and whatever the synced style element holds, \<open>load\<close> returns a mapping and no
  exception, also where the body of its \<open>try\<close> throws. The mapping is the recovered data
  with the defaults filling in: every default key has a value, a key the recovered data
  lacks has its default, and a key the recovered data has keeps the recovered value.
\<close>

theorem load_total:
  "load JSON_parse stored userStyles
     = Inr (defaults_filling (recovered_settings JSON_parse stored userStyles)) \<and>
   (\<forall>k \<in> set (map fst DEFAULTS_entries).
      defaults_filling (recovered_settings JSON_parse stored userStyles) k \<noteq> None) \<and>
   (\<forall>k. recovered_settings JSON_parse stored userStyles k = None \<longrightarrow>
      defaults_filling (recovered_settings JSON_parse stored userStyles) k = DEFAULTS k) \<and>
   (\<forall>k v. recovered_settings JSON_parse stored userStyles k = Some v \<longrightarrow>
      defaults_filling (recovered_settings JSON_parse stored userStyles) k = Some v) \<and>
   (\<forall>e. load_try JSON_parse stored userStyles = Inl e \<longrightarrow>
      load JSON_parse stored userStyles = Inr DEFAULTS)"
proof -
  let ?r = "recovered_settings JSON_parse stored userStyles"
  have a: "load JSON_parse stored userStyles = Inr (defaults_filling ?r)"
    by (rule load_recovered)
  have b: "\<forall>k \<in> set (map fst DEFAULTS_entries). defaults_filling ?r k \<noteq> None"
  proof
    fix k assume "k \<in> set (map fst DEFAULTS_entries)"
    then have "k \<in> dom DEFAULTS" by (simp only: dom_DEFAULTS)
    then show "defaults_filling ?r k \<noteq> None"
      by (auto simp: defaults_filling_def split: option.splits)
  qed
  have c: "\<forall>k. ?r k = None \<longrightarrow> defaults_filling ?r k = DEFAULTS k"
    by (simp add: defaults_filling_def)
  have d: "\<forall>k v. ?r k = Some v \<longrightarrow> defaults_filling ?r k = Some v"
    by (simp add: defaults_filling_def)
  have e: "\<forall>e. load_try JSON_parse stored userStyles = Inl e \<longrightarrow>
      load JSON_parse stored userStyles = Inr DEFAULTS"
    by (simp add: load_def)
  show ?thesis by (rule conjI[OF a conjI[OF b conjI[OF c conjI[OF d e]]]])
qed

text \<open>
  Claim C8. For a mapping \<open>m\<close> that has a value for every default key, and platform JSON
  functions that reproduce \<open>m\<close> and the defaults: \<open>load\<close> after \<open>save\<close> returns \<open>m\<close>. After
  "Reset to Defaults" the settings in memory are the defaults, they are applied, and what
  is stored loads as the defaults.
\<close>

theorem save_load_roundtrip:
  assumes "dom DEFAULTS \<subseteq> dom m"
    and "json_roundtrip JSON_parse JSON_stringify m"
    and "json_roundtrip JSON_parse JSON_stringify DEFAULTS"
  shows "load JSON_parse (Inr (save JSON_stringify m)) userStyles = Inr m \<and>
         settings (reset_click JSON_stringify st) = DEFAULTS \<and>
         applied (reset_click JSON_stringify st) = DEFAULTS \<and>
         localStorage (reset_click JSON_stringify st) = save JSON_stringify DEFAULTS \<and>
         load JSON_parse (Inr (localStorage (reset_click JSON_stringify st))) userStyles
           = Inr DEFAULTS"
proof -
  have rt: "load JSON_parse (Inr (save JSON_stringify x)) userStyles = Inr x"
    if "dom DEFAULTS \<subseteq> dom x" "json_roundtrip JSON_parse JSON_stringify x" for x
  proof -
    from that(2) obtain v where ne: "JSON_stringify x \<noteq> []"
      and p: "JSON_parse (JSON_stringify x) = Inr v" and o: "Object_assign Map.empty v = x"
      by (auto simp: json_roundtrip_def split: sum.splits)
    have "Object_assign DEFAULTS v = DEFAULTS ++ x"
      using Object_assign_add[of DEFAULTS v] o by simp
    also have "\<dots> = x"
    proof (rule ext)
      fix k show "(DEFAULTS ++ x) k = x k"
        using that(1) by (cases "x k") (auto simp: map_add_def dom_def)
    qed
    finally show ?thesis
      using ne p by (simp add: load_def load_try_def save_def Let_def)
  qed
  have r: "settings (reset_click JSON_stringify st) = DEFAULTS"
    "applied (reset_click JSON_stringify st) = DEFAULTS"
    "localStorage (reset_click JSON_stringify st) = save JSON_stringify DEFAULTS"
    by (simp_all add: reset_click_def Let_def buildUI_def applyAll_def)
  show ?thesis
    using rt[OF assms(1,2)] rt[OF subset_refl assms(3)] r by simp
qed

subsection \<open>Hex input\<close>

lemma dropWhile_full:
  assumes "length (dropWhile P s) = length s"
  shows "dropWhile P s = s"
proof (cases s)
  case Nil
  then show ?thesis by simp
next
  case (Cons x xs)
  show ?thesis
  proof (cases "P x")
    case True
    have "length (dropWhile P xs) \<le> length xs" by (rule length_dropWhile_le)
    then show ?thesis using Cons True assms by simp
  next
    case False
    then show ?thesis using Cons by simp
  qed
qed

lemma trim_id:
  assumes "s \<noteq> []" "\<not> is_space (hd s)" "\<not> is_space (last s)"
  shows "trim s = s"
proof -
  have a: "dropWhile is_space s = s" using assms(1,2) by (cases s) auto
  obtain xs x where sx: "s = xs @ [x]" using assms(1) by (metis rev_exhaust)
  have "dropWhile is_space (rev s) = rev s"
    using assms(3) unfolding sx by simp
  then show ?thesis by (simp add: trim_def a)
qed

lemma trim_full:
  assumes "length (trim s) = length s"
  shows "trim s = s"
proof -
  have a: "length (trim s) \<le> length (dropWhile is_space s)"
    unfolding trim_def using length_dropWhile_le[of is_space "rev (dropWhile is_space s)"] by simp
  have b: "length (dropWhile is_space s) \<le> length s" by (rule length_dropWhile_le)
  from a b assms have "length (dropWhile is_space s) = length s" by simp
  then have d: "dropWhile is_space s = s" by (rule dropWhile_full)
  have "length (dropWhile is_space (rev s)) = length (rev s)"
    using assms unfolding trim_def d by simp
  then have "dropWhile is_space (rev s) = rev s" by (rule dropWhile_full)
  then show ?thesis unfolding trim_def d by simp
qed

lemma trim_length: "length (trim s) \<le> length s"
  unfolding trim_def
  using length_dropWhile_le[of is_space "rev (dropWhile is_space s)"]
        length_dropWhile_le[of is_space s]
  by simp

lemma is_hex_color_length: "is_hex_color v \<Longrightarrow> length v = 7"
  by (auto simp: is_hex_color_def split: list.splits)

lemma entered_hex_trim:
  assumes "length raw \<le> hex_maxLength" "is_hex_color (trim raw)"
  shows "trim raw = raw"
proof -
  have "length (trim raw) = 7" using assms(2) by (rule is_hex_color_length)
  moreover have "length (trim raw) \<le> length raw" by (rule trim_length)
  ultimately have "length (trim raw) = length raw"
    using assms(1) by (simp add: hex_maxLength_def)
  then show ?thesis by (rule trim_full)
qed

lemma hex_digit_not_space: "is_hex_digit c \<Longrightarrow> \<not> is_space c"
  by (auto simp: is_hex_digit_def is_space_def Let_def)

lemma is_hex_color_trim:
  assumes "is_hex_color raw"
  shows "trim raw = raw"
proof -
  from assms obtain ds where r: "raw = CHR ''#'' # ds" and l: "length ds = 6"
    and h: "list_all is_hex_digit ds"
    by (auto simp: is_hex_color_def split: list.splits)
  have ne: "ds \<noteq> []" using l by auto
  then have "last ds \<in> set ds" by simp
  then have "\<not> is_space (last ds)" using h by (simp add: list_all_iff hex_digit_not_space)
  moreover have "\<not> is_space (CHR ''#'')" by (simp add: is_space_def)
  ultimately show ?thesis unfolding r using ne by (intro trim_id) simp_all
qed

text \<open>
  Claim C9, as amended. The listener tests the text of the hex input after trimming the
  white space at its ends. If the trimmed text is \<open>#\<close> and six hexadecimal digits, the
  setting becomes the trimmed text, is stored and applied, and the colour picker shows it;
  if not, settings, storage and applied styles stay as they are and the input shows the
  stored value of the setting again. A text that matches as entered is its own trimmed
  text, and within \<open>maxLength\<close> characters the trimmed text matches only if the entered
  text does.
\<close>

theorem hex_input_validated:
  "(is_hex_color (trim raw) \<longrightarrow>
      settings (hex_change JSON_stringify key raw st) = (settings st)(key \<mapsto> JStr (trim raw)) \<and>
      localStorage (hex_change JSON_stringify key raw st)
        = Some (JSON_stringify ((settings st)(key \<mapsto> JStr (trim raw)))) \<and>
      applied (hex_change JSON_stringify key raw st) = (settings st)(key \<mapsto> JStr (trim raw)) \<and>
      swatch_value (hex_change JSON_stringify key raw st) key = Some (JStr (trim raw))) \<and>
   (\<not> is_hex_color (trim raw) \<longrightarrow>
      settings (hex_change JSON_stringify key raw st) = settings st \<and>
      localStorage (hex_change JSON_stringify key raw st) = localStorage st \<and>
      applied (hex_change JSON_stringify key raw st) = applied st \<and>
      hex_value (hex_change JSON_stringify key raw st) key = settings st key) \<and>
   (is_hex_color raw \<longrightarrow> trim raw = raw) \<and>
   (length raw \<le> hex_maxLength \<longrightarrow> is_hex_color (trim raw) = is_hex_color raw)"
proof -
  have a: "is_hex_color (trim raw) \<longrightarrow>
      settings (hex_change JSON_stringify key raw st) = (settings st)(key \<mapsto> JStr (trim raw)) \<and>
      localStorage (hex_change JSON_stringify key raw st)
        = Some (JSON_stringify ((settings st)(key \<mapsto> JStr (trim raw)))) \<and>
      applied (hex_change JSON_stringify key raw st) = (settings st)(key \<mapsto> JStr (trim raw)) \<and>
      swatch_value (hex_change JSON_stringify key raw st) key = Some (JStr (trim raw))"
    by (simp add: hex_change_def Let_def applyAll_def save_def)
  have b: "\<not> is_hex_color (trim raw) \<longrightarrow>
      settings (hex_change JSON_stringify key raw st) = settings st \<and>
      localStorage (hex_change JSON_stringify key raw st) = localStorage st \<and>
      applied (hex_change JSON_stringify key raw st) = applied st \<and>
      hex_value (hex_change JSON_stringify key raw st) key = settings st key"
    by (simp add: hex_change_def Let_def)
  have c: "is_hex_color raw \<longrightarrow> trim raw = raw"
    by (simp add: is_hex_color_trim)
  have d: "length raw \<le> hex_maxLength \<longrightarrow> is_hex_color (trim raw) = is_hex_color raw"
    using entered_hex_trim[of raw] is_hex_color_trim[of raw] by auto
  show ?thesis by (rule conjI[OF a conjI[OF b conjI[OF c d]]])
qed

text \<open>
  Claim C9 as stated fails for a text with white space around a colour: it does not match
  the pattern, yet the setting changes.
\<close>

theorem padded_hex_accepted:
  "\<not> is_hex_color '' #abcdef'' \<and>
   settings sample_panel ''linkColor'' = Some (JStr ''#5aa5ff'') \<and>
   settings (hex_change sample_stringify ''linkColor'' '' #abcdef'' sample_panel) ''linkColor''
     = Some (JStr ''#abcdef'')"
  by code_simp

subsection \<open>The tagged comment block\<close>

lemma strip_prefix_append [simp]: "strip_prefix p (p @ s) = Some s"
  by (induction p) auto

lemma strip_prefix_more: "strip_prefix p s = Some s1 \<Longrightarrow> strip_prefix p (s @ t) = Some (s1 @ t)"
  by (induction p s rule: strip_prefix.induct) (auto split: if_splits)

lemma split_close_Cons:
  "c \<noteq> CHR ''*'' \<Longrightarrow> split_close (c # s) = map_option (\<lambda>(b, r). (c # b, r)) (split_close s)"
  by (cases s) auto

lemma split_close_snoc:
  "split_close s = None \<Longrightarrow> c \<noteq> CHR ''/'' \<Longrightarrow> split_close (s @ [c]) = None"
  by (induction s rule: split_close.induct) (auto split: if_splits)

lemma split_close_here:
  "split_close a = None \<Longrightarrow> a = [] \<or> last a \<noteq> CHR ''*'' \<Longrightarrow>
   split_close (a @ ''*/'' @ r) = Some (a, r)"
  by (induction a rule: split_close.induct) (auto split: if_splits)

lemma split_close_more:
  "split_close s = Some (b, r) \<Longrightarrow> split_close (s @ t) = Some (b, r @ t)"
  by (induction s arbitrary: b rule: split_close.induct) (auto split: if_splits)

lemma match_block_sync_tag:
  assumes "split_close t = None"
  shows "match_block (sync_tag t @ r) = Some ('' '' @ t @ '' '', r)"
proof -
  have a: "split_close ('' '' @ t @ '' '') = None"
    using assms by (simp add: split_close_Cons split_close_snoc)
  have "split_close (('' '' @ t @ '' '') @ ''*/'' @ r) = Some ('' '' @ t @ '' '', r)"
    by (rule split_close_here[OF a]) simp
  then have b: "split_close (CHR '' '' # t @ CHR '' '' # CHR ''*'' # CHR ''/'' # r)
      = Some (CHR '' '' # t @ '' '', r)"
    by simp
  show ?thesis
    unfolding match_block_def sync_tag_def
    by (simp add: is_space_def SYNC_TAG_def b)
qed

lemma find_block_sync_tag:
  assumes "split_close t = None"
  shows "find_block (sync_tag t @ r) = Some ([], '' '' @ t @ '' '', r)"
proof -
  obtain c cs where e: "sync_tag t @ r = c # cs" by (simp add: sync_tag_def)
  show ?thesis
    using match_block_sync_tag[OF assms, of r] unfolding e by simp
qed

lemma dropWhile_snoc_keep: "\<not> P x \<Longrightarrow> dropWhile P (ys @ [x]) = dropWhile P ys @ [x]"
  by (induction ys) auto

lemma dropWhile_snoc_drop:
  assumes "P d"
  shows "dropWhile P (rev (dropWhile P (t @ [d]))) = dropWhile P (rev (dropWhile P t))"
proof (cases "\<forall>x\<in>set t. P x")
  case True
  then have e: "dropWhile P (t @ [d]) = []" "dropWhile P t = []"
    using assms by simp_all
  show ?thesis by (simp only: e)
next
  case False
  then have "dropWhile P (t @ [d]) = dropWhile P t @ [d]"
    by (auto simp: dropWhile_append1)
  then show ?thesis using assms by simp
qed

lemma trim_spaces: "is_space c \<Longrightarrow> is_space d \<Longrightarrow> trim (c # t @ [d]) = trim t"
  by (simp add: trim_def dropWhile_snoc_drop)

lemma buildSyncCSS_eq:
  "buildSyncCSS JSON_stringify m css =
     sync_tag (JSON_stringify m) @
       (if trim (strip_old_tag css) \<noteq> [] then CHR 0x0A # trim (strip_old_tag css) else [])"
  by (simp add: buildSyncCSS_def sync_tag_def Let_def)

lemma space_LF: "is_space (CHR 0x0A)" "is_space (CHR '' '')"
  by (simp_all add: is_space_def)

lemma dropWhile_trim: "dropWhile is_space (trim s) = trim s"
proof (cases "dropWhile is_space s")
  case Nil
  show ?thesis by (simp only: trim_def Nil rev.simps dropWhile.simps)
next
  case (Cons x xs)
  have x: "\<not> is_space x" using hd_dropWhile[of is_space s] Cons by simp
  have "trim s = rev (dropWhile is_space (rev xs @ [x]))" by (simp add: trim_def Cons)
  also have "\<dots> = x # rev (dropWhile is_space (rev xs))" using x by (simp add: dropWhile_snoc_keep)
  finally show ?thesis using x by simp
qed

lemma trim_trim: "trim (trim s) = trim s"
proof -
  have a: "dropWhile is_space (trim s) = trim s" by (rule dropWhile_trim)
  have "rev (trim s) = dropWhile is_space (rev (dropWhile is_space s))" by (simp add: trim_def)
  then have b: "dropWhile is_space (rev (trim s)) = rev (trim s)" by simp
  show ?thesis unfolding trim_def[of "trim s"] a b by simp
qed

lemma strip_old_tag_built:
  assumes "split_close (JSON_stringify m) = None"
  shows "trim (strip_old_tag (buildSyncCSS JSON_stringify m css)) = trim (strip_old_tag css)"
proof -
  let ?clean = "trim (strip_old_tag css)"
  let ?rest = "if ?clean \<noteq> [] then CHR 0x0A # ?clean else []"
  have "strip_old_tag (buildSyncCSS JSON_stringify m css) = dropWhile is_space ?rest"
    unfolding buildSyncCSS_eq strip_old_tag_def[of "sync_tag (JSON_stringify m) @ ?rest"]
    by (simp add: find_block_sync_tag[OF assms])
  also have "\<dots> = ?clean" by (simp add: space_LF dropWhile_trim)
  finally show ?thesis by (simp add: trim_trim)
qed

lemma buildSyncCSS_replaces:
  assumes "split_close (JSON_stringify m') = None"
  shows "buildSyncCSS JSON_stringify m (buildSyncCSS JSON_stringify m' css)
           = buildSyncCSS JSON_stringify m css"
  by (simp add: buildSyncCSS_eq[of _ m] strip_old_tag_built[of JSON_stringify m', OF assms])

lemma match_block_space: "is_space c \<Longrightarrow> match_block (c # s) = None"
  by (auto simp: match_block_def is_space_def)

lemma find_block_space:
  "is_space c \<Longrightarrow> find_block (c # s) = map_option (\<lambda>(p, b, r). (c # p, b, r)) (find_block s)"
  by (simp add: match_block_space)

lemma count_blocks_space: "is_space c \<Longrightarrow> count_blocks (c # s) = count_blocks s"
  by (subst count_blocks.simps, subst (2) count_blocks.simps)
     (auto simp: match_block_space split: option.splits)

lemma count_blocks_Nil [simp]: "count_blocks [] = 0"
  by (subst count_blocks.simps) simp

lemma count_blocks_built:
  assumes "split_close (JSON_stringify m) = None"
  shows "count_blocks (buildSyncCSS JSON_stringify m css)
           = Suc (count_blocks (trim (strip_old_tag css)))"
proof -
  let ?clean = "trim (strip_old_tag css)"
  let ?rest = "if ?clean \<noteq> [] then CHR 0x0A # ?clean else []"
  have "count_blocks (buildSyncCSS JSON_stringify m css) = Suc (count_blocks ?rest)"
    unfolding buildSyncCSS_eq
    by (subst count_blocks.simps) (simp add: find_block_sync_tag[OF assms])
  also have "count_blocks ?rest = count_blocks ?clean"
    by (simp add: count_blocks_space space_LF)
  finally show ?thesis .
qed

lemma parse_built:
  assumes "comment_safe (JSON_stringify m)"
  shows "parseTagFromCSS JSON_parse (buildSyncCSS JSON_stringify m css)
           = (case JSON_parse (JSON_stringify m) of Inl e \<Rightarrow> JNull | Inr v \<Rightarrow> v)"
proof -
  have s: "split_close (JSON_stringify m) = None" and t: "trim (JSON_stringify m) = JSON_stringify m"
    using assms by (simp_all add: comment_safe_def)
  have "trim ('' '' @ JSON_stringify m @ '' '') = JSON_stringify m"
    using trim_spaces[OF space_LF(2) space_LF(2), of "JSON_stringify m"] t by simp
  then show ?thesis
    unfolding buildSyncCSS_eq parseTagFromCSS_def
    by (simp add: find_block_sync_tag[OF s])
qed

lemma match_block_more:
  assumes "match_block s = Some (b, r)"
  shows "match_block (s @ t) = Some (b, r @ t)"
proof -
  from assms obtain s1 s2 where a: "strip_prefix ''/*'' s = Some s1"
    and b: "strip_prefix (SYNC_TAG @ '':'') (dropWhile is_space s1) = Some s2"
    and c: "split_close s2 = Some (b, r)"
    by (auto simp: match_block_def split: option.splits)
  have "\<exists>x\<in>set s1. \<not> is_space x"
  proof (rule ccontr)
    assume "\<not> (\<exists>x\<in>set s1. \<not> is_space x)"
    then have "dropWhile is_space s1 = []" by simp
    with b show False by (simp add: SYNC_TAG_def)
  qed
  then obtain x where "x \<in> set s1" "\<not> is_space x" by blast
  then have d: "dropWhile is_space (s1 @ t) = dropWhile is_space s1 @ t"
    by (auto simp: dropWhile_append1)
  show ?thesis
    unfolding match_block_def
    by (simp add: strip_prefix_more[OF a] d strip_prefix_more[OF b] split_close_more[OF c]
             del: strip_prefix.simps)
qed

lemma find_block_more: "find_block s \<noteq> None \<Longrightarrow> find_block (s @ t) \<noteq> None"
proof (induction s)
  case Nil
  then show ?case by simp
next
  case (Cons c cs)
  show ?case
  proof (cases "match_block (c # cs)")
    case (Some br)
    then obtain b r where "match_block (c # cs) = Some (b, r)" by (cases br) auto
    from match_block_more[OF this, of t] show ?thesis by simp
  next
    case None
    then have "find_block cs \<noteq> None" using Cons.prems by auto
    then have "find_block (cs @ t) \<noteq> None" by (rule Cons.IH)
    then show ?thesis by (auto split: option.splits)
  qed
qed

lemma find_block_dropWhile: "find_block s = None \<Longrightarrow> find_block (dropWhile is_space s) = None"
  by (induction s) (auto simp: match_block_space split: option.splits)

lemma find_block_trim:
  assumes "find_block s = None"
  shows "find_block (trim s) = None"
proof -
  let ?d = "dropWhile is_space s"
  have "rev (dropWhile is_space (rev ?d)) @ rev (takeWhile is_space (rev ?d))
          = rev (takeWhile is_space (rev ?d) @ dropWhile is_space (rev ?d))"
    by (simp only: rev_append)
  also have "\<dots> = ?d" by (simp only: takeWhile_dropWhile_id rev_rev_ident)
  finally have e: "trim s @ rev (takeWhile is_space (rev ?d)) = ?d"
    by (simp only: trim_def)
  have n: "find_block ?d = None" using assms by (rule find_block_dropWhile)
  show ?thesis
  proof (rule ccontr)
    assume "find_block (trim s) \<noteq> None"
    then have "find_block (trim s @ rev (takeWhile is_space (rev ?d))) \<noteq> None"
      by (rule find_block_more)
    then show False using n unfolding e by simp
  qed
qed

lemma count_blocks_none: "find_block s = None \<Longrightarrow> count_blocks s = 0"
  by (subst count_blocks.simps) simp

text \<open>
  Claim C7, as amended. For a mapping whose JSON text can sit in a comment and is
  reproduced by the platform functions, and any earlier style text: parsing what
  \<open>buildSyncCSS\<close> produces yields the mapping. The produced text holds one block more than
  the earlier text has after its first block is removed: exactly one when the earlier text
  held no block, and a block that \<open>buildSyncCSS\<close> embedded before is replaced by the new
  one.
\<close>

theorem sync_roundtrip:
  assumes "comment_safe (JSON_stringify m)"
    and "json_roundtrip JSON_parse JSON_stringify m"
  shows "Object_assign Map.empty (parseTagFromCSS JSON_parse (buildSyncCSS JSON_stringify m css)) = m \<and>
         count_blocks (buildSyncCSS JSON_stringify m css)
           = Suc (count_blocks (trim (strip_old_tag css))) \<and>
         (find_block css = None \<longrightarrow> count_blocks (buildSyncCSS JSON_stringify m css) = 1) \<and>
         (\<forall>m'. comment_safe (JSON_stringify m') \<longrightarrow>
            buildSyncCSS JSON_stringify m (buildSyncCSS JSON_stringify m' css)
              = buildSyncCSS JSON_stringify m css)"
proof -
  have s: "split_close (JSON_stringify m) = None" using assms(1) by (simp add: comment_safe_def)
  from assms(2) obtain v where p: "JSON_parse (JSON_stringify m) = Inr v"
    and o: "Object_assign Map.empty v = m"
    by (auto simp: json_roundtrip_def split: sum.splits)
  have a: "Object_assign Map.empty (parseTagFromCSS JSON_parse (buildSyncCSS JSON_stringify m css)) = m"
    by (simp add: parse_built[of JSON_stringify m, OF assms(1)] p o)
  have b: "count_blocks (buildSyncCSS JSON_stringify m css)
           = Suc (count_blocks (trim (strip_old_tag css)))"
    using s by (rule count_blocks_built)
  have c: "count_blocks (buildSyncCSS JSON_stringify m css) = 1" if "find_block css = None"
  proof -
    have "strip_old_tag css = css" using that by (simp add: strip_old_tag_def)
    then show ?thesis using b find_block_trim[OF that] by (simp add: count_blocks_none)
  qed
  have d: "buildSyncCSS JSON_stringify m (buildSyncCSS JSON_stringify m' css)
              = buildSyncCSS JSON_stringify m css" if "comment_safe (JSON_stringify m')" for m'
    using that by (intro buildSyncCSS_replaces) (simp add: comment_safe_def)
  show ?thesis using a b c d by blast
qed

subsection \<open>The sample inputs\<close>

lemma fold_assign_distinct:
  "distinct (map fst kvs) \<Longrightarrow> ''__proto__'' \<notin> fst ` set kvs \<Longrightarrow>
   fold assign_entry kvs t = t ++ map_of kvs"
proof (induction kvs arbitrary: t)
  case Nil
  then show ?case by simp
next
  case (Cons x xs)
  obtain k v where x: "x = (k, v)" by (cases x)
  have k: "map_of xs k = None"
    using Cons.prems(1) unfolding x by (simp add: map_of_eq_None_iff)
  have kp: "k \<noteq> ''__proto__''" using Cons.prems(2) unfolding x by auto
  have "fold assign_entry (x # xs) t = t(k \<mapsto> v) ++ map_of xs"
    using Cons kp unfolding x by (simp add: assign_entry_def)
  also have "\<dots> = t ++ map_of (x # xs)"
    unfolding x using k by (auto simp: map_add_def fun_eq_iff split: option.splits)
  finally show ?case .
qed

lemma Object_assign_JObj:
  "distinct (map fst kvs) \<Longrightarrow> ''__proto__'' \<notin> fst ` set kvs \<Longrightarrow>
   Object_assign Map.empty (JObj kvs) = map_of kvs"
  by (simp add: Object_assign_fold fold_assign_distinct)

lemma sample_texts:
  "sample_stringify DEFAULTS \<noteq> []" "sample_stringify bold_settings \<noteq> []"
  "sample_parse (sample_stringify DEFAULTS) = Inr (JObj DEFAULTS_entries)"
  "sample_parse (sample_stringify bold_settings) = Inr (JObj bold_entries)"
  "comment_safe (sample_stringify DEFAULTS)" "comment_safe (sample_stringify bold_settings)"
  by code_simp+

lemma sample_entries:
  "distinct (map fst DEFAULTS_entries)" "''__proto__'' \<notin> fst ` set DEFAULTS_entries"
  "distinct (map fst bold_entries)" "''__proto__'' \<notin> fst ` set bold_entries"
  by code_simp+

lemma sample_roundtrip:
  "json_roundtrip sample_parse sample_stringify DEFAULTS"
  "json_roundtrip sample_parse sample_stringify bold_settings"
proof -
  have "Object_assign Map.empty (JObj DEFAULTS_entries) = DEFAULTS"
    unfolding DEFAULTS_def using sample_entries(1,2) by (rule Object_assign_JObj)
  then show "json_roundtrip sample_parse sample_stringify DEFAULTS"
    by (simp add: json_roundtrip_def sample_texts)
  have "Object_assign Map.empty (JObj bold_entries) = bold_settings"
    unfolding bold_settings_def using sample_entries(3,4) by (rule Object_assign_JObj)
  then show "json_roundtrip sample_parse sample_stringify bold_settings"
    by (simp add: json_roundtrip_def sample_texts)
qed

theorem sync_roundtrip_witness:
  "comment_safe (sample_stringify DEFAULTS) \<and>
   json_roundtrip sample_parse sample_stringify DEFAULTS \<and>
   Object_assign Map.empty
     (parseTagFromCSS sample_parse (buildSyncCSS sample_stringify DEFAULTS plain_css)) = DEFAULTS \<and>
   find_block plain_css = None \<and>
   count_blocks (buildSyncCSS sample_stringify DEFAULTS plain_css) = 1 \<and>
   comment_safe (sample_stringify bold_settings) \<and>
   buildSyncCSS sample_stringify DEFAULTS (buildSyncCSS sample_stringify bold_settings plain_css)
     = buildSyncCSS sample_stringify DEFAULTS plain_css"
proof -
  have n: "find_block plain_css = None" by code_simp
  note t = sync_roundtrip[of sample_stringify DEFAULTS sample_parse plain_css,
      OF sample_texts(5) sample_roundtrip(1)]
  have "buildSyncCSS sample_stringify DEFAULTS (buildSyncCSS sample_stringify bold_settings plain_css)
     = buildSyncCSS sample_stringify DEFAULTS plain_css"
    by (rule t[THEN conjunct2, THEN conjunct2, THEN conjunct2, rule_format, OF sample_texts(6)])
  with t n sample_texts(5,6) sample_roundtrip(1) show ?thesis by simp
qed

text \<open>
  Claim C7 as stated fails for an earlier text with two blocks: \<open>replace\<close> removes the
  first only, so the produced text holds two.
\<close>

theorem second_block_survives:
  "count_blocks two_blocks = 2 \<and>
   count_blocks (buildSyncCSS sample_stringify DEFAULTS two_blocks) = 2"
  by code_simp

theorem save_load_roundtrip_witness:
  "dom DEFAULTS \<subseteq> dom bold_settings \<and>
   json_roundtrip sample_parse sample_stringify bold_settings \<and>
   json_roundtrip sample_parse sample_stringify DEFAULTS \<and>
   bold_settings ''nickBold'' = Some (JBool True) \<and>
   load sample_parse (Inr (save sample_stringify bold_settings)) None = Inr bold_settings \<and>
   settings (reset_click sample_stringify sample_panel) = DEFAULTS \<and>
   load sample_parse (Inr (localStorage (reset_click sample_stringify sample_panel))) None
     = Inr DEFAULTS"
proof -
  have d: "dom DEFAULTS \<subseteq> dom bold_settings"
    unfolding dom_DEFAULTS bold_settings_def dom_map_of_conv_image_fst
    by (simp add: bold_entries_def DEFAULTS_entries_def)
  have b: "bold_settings ''nickBold'' = Some (JBool True)" by code_simp
  note t = save_load_roundtrip[OF d sample_roundtrip(2) sample_roundtrip(1), of None sample_panel]
  note t1 = t[THEN conjunct1]
  note t2 = t[THEN conjunct2, THEN conjunct1]
  note t5 = t[THEN conjunct2, THEN conjunct2, THEN conjunct2, THEN conjunct2]
  show ?thesis
    by (intro conjI) (rule d sample_roundtrip b t1 t2 t5)+
qed

theorem hex_input_validated_witness:
  "is_hex_color (trim ''#A1b2C3 '') \<and> trim ''#A1b2C3 '' = ''#A1b2C3'' \<and>
   settings (hex_change sample_stringify ''linkColor'' ''#A1b2C3 '' sample_panel) ''linkColor''
     = Some (JStr ''#A1b2C3'') \<and>
   localStorage sample_panel = None \<and>
   localStorage (hex_change sample_stringify ''linkColor'' ''#A1b2C3 '' sample_panel)
     = Some (sample_stringify ((settings sample_panel)(''linkColor'' \<mapsto> JStr ''#A1b2C3''))) \<and>
   applied (hex_change sample_stringify ''linkColor'' ''#A1b2C3 '' sample_panel) ''linkColor''
     = Some (JStr ''#A1b2C3'') \<and>
   \<not> is_hex_color (trim ''#12345'') \<and>
   settings (hex_change sample_stringify ''linkColor'' ''#12345'' sample_panel)
     = settings sample_panel \<and>
   localStorage (hex_change sample_stringify ''linkColor'' ''#12345'' sample_panel) = None \<and>
   hex_value (hex_change sample_stringify ''linkColor'' ''#12345'' sample_panel) ''linkColor''
     = Some (JStr ''#5aa5ff'') \<and>
   is_hex_color ''#A1b2C3'' \<and> trim ''#A1b2C3'' = ''#A1b2C3'' \<and>
   length ''#12345 '' \<le> hex_maxLength \<and> \<not> is_hex_color (trim ''#12345 '')"
proof -
  have a: "is_hex_color (trim ''#A1b2C3 '')" "trim ''#A1b2C3 '' = ''#A1b2C3''"
    "\<not> is_hex_color (trim ''#12345'')" "is_hex_color ''#A1b2C3''"
    "length ''#12345 '' \<le> hex_maxLength" "\<not> is_hex_color ''#12345 ''"
    by code_simp+
  have s: "settings sample_panel ''linkColor'' = Some (JStr ''#5aa5ff'')"
    "localStorage sample_panel = None"
    by code_simp+
  note t1 = hex_input_validated[of "''#A1b2C3 ''" sample_stringify "''linkColor''" sample_panel]
  note t2 = hex_input_validated[of "''#12345''" sample_stringify "''linkColor''" sample_panel]
  note t3 = hex_input_validated[of "''#A1b2C3''" sample_stringify "''linkColor''" sample_panel]
  note t4 = hex_input_validated[of "''#12345 ''" sample_stringify "''linkColor''" sample_panel]
  have p1: "settings (hex_change sample_stringify ''linkColor'' ''#A1b2C3 '' sample_panel)
              = (settings sample_panel)(''linkColor'' \<mapsto> JStr ''#A1b2C3'')"
    "localStorage (hex_change sample_stringify ''linkColor'' ''#A1b2C3 '' sample_panel)
     = Some (sample_stringify ((settings sample_panel)(''linkColor'' \<mapsto> JStr ''#A1b2C3'')))"
    "applied (hex_change sample_stringify ''linkColor'' ''#A1b2C3 '' sample_panel)
              = (settings sample_panel)(''linkColor'' \<mapsto> JStr ''#A1b2C3'')"
    using t1[THEN conjunct1, rule_format, OF a(1)] unfolding a(2) by blast+
  have p2: "settings (hex_change sample_stringify ''linkColor'' ''#12345'' sample_panel)
     = settings sample_panel"
    "localStorage (hex_change sample_stringify ''linkColor'' ''#12345'' sample_panel)
     = localStorage sample_panel"
    "hex_value (hex_change sample_stringify ''linkColor'' ''#12345'' sample_panel) ''linkColor''
     = settings sample_panel ''linkColor''"
    using t2[THEN conjunct2, THEN conjunct1, rule_format, OF a(3)] by blast+
  have p3: "trim ''#A1b2C3'' = ''#A1b2C3''"
    by (rule t3[THEN conjunct2, THEN conjunct2, THEN conjunct1, rule_format, OF a(4)])
  have p4: "\<not> is_hex_color (trim ''#12345 '')"
    using t4[THEN conjunct2, THEN conjunct2, THEN conjunct2, rule_format, OF a(5)] a(6) by simp
  show ?thesis
    using a s p1 p2 p3 p4 by simp
qed

theorem load_total_witness:
  "''bgColor'' \<in> set (map fst DEFAULTS_entries) \<and>
   (\<exists>m. load partial_parse (Inr (Some bold_only)) None = Inr m \<and>
        m ''nickBold'' = Some (JBool True) \<and> m ''bgColor'' = Some (JStr ''#0f1115'')) \<and>
   (\<exists>m. load partial_parse (Inr None) (Some (sync_tag bold_only @ plain_css)) = Inr m \<and>
        m ''nickBold'' = Some (JBool True) \<and> m ''bgColor'' = Some (JStr ''#0f1115'')) \<and>
   (\<exists>m. load partial_parse (Inr (Some ''{oops'')) (Some (sync_tag bold_only)) = Inr m \<and>
        load_try partial_parse (Inr (Some ''{oops'')) (Some (sync_tag bold_only)) = Inl SyntaxError \<and>
        m ''nickBold'' = Some (JBool False) \<and> m ''bgColor'' \<noteq> None)"
proof -
  have k: "''bgColor'' \<in> set (map fst DEFAULTS_entries)" by code_simp
  have d: "DEFAULTS ''bgColor'' = Some (JStr ''#0f1115'')" "DEFAULTS ''nickBold'' = Some (JBool False)"
    by code_simp+
  note t1 = load_total[of partial_parse "Inr (Some bold_only)" None]
  have r1: "recovered_settings partial_parse (Inr (Some bold_only)) None ''nickBold'' = Some (JBool True)"
    "recovered_settings partial_parse (Inr (Some bold_only)) None ''bgColor'' = None"
    by code_simp+
  have w1: "\<exists>m. load partial_parse (Inr (Some bold_only)) None = Inr m \<and>
        m ''nickBold'' = Some (JBool True) \<and> m ''bgColor'' = Some (JStr ''#0f1115'')"
    using t1 r1 d by auto
  note t2 = load_total[of partial_parse "Inr None" "Some (sync_tag bold_only @ plain_css)"]
  have r2: "recovered_settings partial_parse (Inr None) (Some (sync_tag bold_only @ plain_css))
             ''nickBold'' = Some (JBool True)"
    "recovered_settings partial_parse (Inr None) (Some (sync_tag bold_only @ plain_css))
             ''bgColor'' = None"
    by code_simp+
  have w2: "\<exists>m. load partial_parse (Inr None) (Some (sync_tag bold_only @ plain_css)) = Inr m \<and>
        m ''nickBold'' = Some (JBool True) \<and> m ''bgColor'' = Some (JStr ''#0f1115'')"
    using t2 r2 d by auto
  note t3 = load_total[of partial_parse "Inr (Some ''{oops'')" "Some (sync_tag bold_only)"]
  have pp: "partial_parse ''{oops'' = Inl SyntaxError" by code_simp
  have r3: "recovered_settings partial_parse (Inr (Some ''{oops'')) (Some (sync_tag bold_only))
             ''nickBold'' = None"
    "load_try partial_parse (Inr (Some ''{oops'')) (Some (sync_tag bold_only)) = Inl SyntaxError"
    by (simp_all add: recovered_settings_def load_try_def pp)
  have w3: "\<exists>m. load partial_parse (Inr (Some ''{oops'')) (Some (sync_tag bold_only)) = Inr m \<and>
        load_try partial_parse (Inr (Some ''{oops'')) (Some (sync_tag bold_only)) = Inl SyntaxError \<and>
        m ''nickBold'' = Some (JBool False) \<and> m ''bgColor'' \<noteq> None"
    using t3 r3 d k by auto
  show ?thesis using k w1 w2 w3 by (intro conjI)
qed

end
